theory Spec2Isabelle
  imports Complex_Main "HOL-Library.Word" "HOL-Library.Log_Nat"
begin

unbundle bit_operations_syntax

section \<open>Outcomes of a call\<close>

text \<open>
  The functions of \<^verbatim>\<open>dqn.cpp\<close> either return, stop at a failed \<^verbatim>\<open>assert\<close>, or leave
  the behaviour defined by C++ (an index outside a container, \<^verbatim>\<open>pop_front\<close> of an empty
  deque, a distribution built with inverted bounds, a floating value that does not fit the
  integer type it is converted to). Each of these is a value of the model.
\<close>

datatype assertion =
    Height_gt_width
  | Rgb_range
  | X_weight_range
  | Y_weight_range
  | Action_range
  | Reward_range

datatype undefined_behaviour =
    Distribution_bounds int int
  | Index_out_of_range int
  | Pop_front_empty
  | Float_to_uint8

datatype failure =
    Assertion_failed assertion
  | Undefined_behaviour undefined_behaviour

section \<open>Replay memory\<close>

text \<open>
  \<^verbatim>\<open>replay_memory_\<close> is a \<^verbatim>\<open>std::deque<Transition>\<close>: a list, oldest entry first.
  \<^verbatim>\<open>replay_memory_capacity_\<close> is declared in the header; it is the parameter \<open>capacity\<close>.
\<close>

definition AddTransition :: "nat \<Rightarrow> 't list \<Rightarrow> 't \<Rightarrow> failure + 't list" where
  "AddTransition capacity replay_memory transition =
     (if length replay_memory = capacity
      then (case replay_memory of
              [] \<Rightarrow> Inl (Undefined_behaviour Pop_front_empty)
            | oldest # rest \<Rightarrow> Inr (rest @ [transition]))
      else Inr (replay_memory @ [transition]))"

text \<open>A sequence of calls of \<open>AddTransition\<close>, the first transition of the list first.\<close>

fun AddTransitions :: "nat \<Rightarrow> 't list \<Rightarrow> 't list \<Rightarrow> failure + 't list" where
  "AddTransitions capacity replay_memory [] = Inr replay_memory"
| "AddTransitions capacity replay_memory (t # ts) =
     (case AddTransition capacity replay_memory t of
        Inl e \<Rightarrow> Inl e
      | Inr replay_memory' \<Rightarrow> AddTransitions capacity replay_memory' ts)"

section \<open>Random draws\<close>

text \<open>
  \<^verbatim>\<open>std::uniform_int_distribution<int>(a, b)(random_engine)\<close> is library code. The engine's
  state is threaded through the calls; the distribution together with the engine is the
  parameter \<open>draw\<close>, which returns the drawn value and the next state. The library
  requires \<open>a \<le> b\<close>; building the distribution with \<open>b < a\<close> is undefined behaviour.
  The bound \<^verbatim>\<open>size() - 1\<close> of the source is computed on \<^verbatim>\<open>size_t\<close> and converted to
  \<^verbatim>\<open>int\<close>: it is \<open>size - 1\<close> for a non-empty container (of a size that fits an \<^verbatim>\<open>int\<close>) and
  \<open>-1\<close> for an empty one, where the subtraction wraps around: the value of
  \<open>int (length xs) - 1\<close>.
\<close>

type_synonym 'g distribution = "int \<Rightarrow> int \<Rightarrow> 'g \<Rightarrow> int \<times> 'g"

definition uniform_int_distribution ::
    "'g distribution \<Rightarrow> int \<Rightarrow> int \<Rightarrow> 'g \<Rightarrow> failure + (int \<times> 'g)" where
  "uniform_int_distribution draw a b g =
     (if a \<le> b then Inr (draw a b g) else Inl (Undefined_behaviour (Distribution_bounds a b)))"

text \<open>What the library promises of a distribution: a value between the bounds.\<close>

definition within_bounds :: "'g distribution \<Rightarrow> bool" where
  "within_bounds draw \<longleftrightarrow> (\<forall>a b g. a \<le> b \<longrightarrow> a \<le> fst (draw a b g) \<and> fst (draw a b g) \<le> b)"

text \<open>
  One distribution that keeps the promise, to run the model on: the engine state is an
  integer, reduced into the range and then advanced by a linear congruence.
\<close>

definition congruential :: "int distribution" where
  "congruential a b g = (a + g mod (b - a + 1), (g * 48271 + 11) mod 2147483647)"

text \<open>Indexing a vector or deque with \<^verbatim>\<open>operator[]\<close>: unchecked in C++.\<close>

definition at_index :: "'a list \<Rightarrow> int \<Rightarrow> failure + 'a" where
  "at_index xs k =
     (if 0 \<le> k \<and> k < int (length xs) then Inr (xs ! nat k)
      else Inl (Undefined_behaviour (Index_out_of_range k)))"

section \<open>Action selection\<close>

definition SelectAction ::
    "'g distribution \<Rightarrow> 'a list \<Rightarrow> 'f \<Rightarrow> real \<Rightarrow> 'g \<Rightarrow> failure + ('a \<times> 'g)" where
  "SelectAction draw legal_actions last_frames epsilon g =
     (case uniform_int_distribution draw 0 (int (length legal_actions) - 1) g of
        Inl e \<Rightarrow> Inl e
      | Inr (random_idx, g') \<Rightarrow>
          (case at_index legal_actions random_idx of
             Inl e \<Rightarrow> Inl e
           | Inr a \<Rightarrow> Inr (a, g')))"

section \<open>Minibatch assembly\<close>

text \<open>
  \<^verbatim>\<open>FrameData\<close> is an array of \<^verbatim>\<open>kCroppedFrameDataSize\<close> bytes, \<^verbatim>\<open>InputFrames\<close> an array of
  \<^verbatim>\<open>kInputFrameCount\<close> shared frames, a \<^verbatim>\<open>Transition\<close> the tuple read with \<^verbatim>\<open>std::get<0..3>\<close>:
  the input frames, the action, the reward and the optional next frame. Frames are never
  written after they are built, so a shared pointer is modelled by the frame it points to.
  The action is the enumeration's integer value.
\<close>

type_synonym FrameData = "8 word list"
type_synonym InputFrames = "FrameData list"
type_synonym Transition = "InputFrames \<times> int \<times> real \<times> FrameData option"

definition get0 :: "Transition \<Rightarrow> InputFrames" where "get0 t = fst t"
definition get1 :: "Transition \<Rightarrow> int" where "get1 t = fst (snd t)"
definition get2 :: "Transition \<Rightarrow> real" where "get2 t = fst (snd (snd t))"
definition get3 :: "Transition \<Rightarrow> FrameData option" where "get3 t = snd (snd (snd t))"

text \<open>
  Modelled from the spec: the constants of the missing header \<^verbatim>\<open>dqn.hpp\<close>. The frame
  edge \<open>S\<close> (\<^verbatim>\<open>kCroppedFrameSize\<close>), the stack depth \<open>K\<close> (\<^verbatim>\<open>kInputFrameCount\<close>), the
  minibatch size \<open>M\<close> (\<^verbatim>\<open>kMinibatchSize\<close>) and \<^verbatim>\<open>kOutputCount\<close> are parameters; a frame holds
  \<open>S \<cdot> S\<close> values and one input row \<open>K \<cdot> S \<cdot> S\<close> values.
\<close>

definition kCroppedFrameDataSize :: "nat \<Rightarrow> nat" where
  "kCroppedFrameDataSize S = S * S"

definition kInputDataSize :: "nat \<Rightarrow> nat \<Rightarrow> nat" where
  "kInputDataSize S K = kCroppedFrameDataSize S * K"

text \<open>
  \<^verbatim>\<open>std::fill(first, last, v)\<close> and \<^verbatim>\<open>std::copy(first, last, out)\<close> on an array held as a
  list, the positions given as offsets from \<^verbatim>\<open>begin()\<close>. Writing past the end of the array is
  undefined behaviour.
\<close>

definition overwrite :: "'a list \<Rightarrow> nat \<Rightarrow> 'a list \<Rightarrow> 'a list" where
  "overwrite arr out src = take out arr @ src @ drop (out + length src) arr"

definition std_fill :: "'a list \<Rightarrow> nat \<Rightarrow> nat \<Rightarrow> 'a \<Rightarrow> failure + 'a list" where
  "std_fill arr lo hi v =
     (if lo \<le> hi \<and> hi \<le> length arr
      then Inr (overwrite arr lo (replicate (hi - lo) v))
      else Inl (Undefined_behaviour (Index_out_of_range (int hi))))"

definition std_copy :: "'a list \<Rightarrow> 'a list \<Rightarrow> nat \<Rightarrow> failure + 'a list" where
  "std_copy src arr out =
     (if out + length src \<le> length arr
      then Inr (overwrite arr out src)
      else Inl (Undefined_behaviour (Index_out_of_range (int (out + length src)))))"

text \<open>The conversion of a byte to \<^verbatim>\<open>float\<close> is exact.\<close>

definition float_of_uint8 :: "8 word \<Rightarrow> real" where
  "float_of_uint8 b = real (unat b)"

text \<open>The first loop of \<^verbatim>\<open>Update\<close>: \<open>count\<close> draws, in the order they are pushed.\<close>

fun sample_transitions ::
    "'g distribution \<Rightarrow> nat \<Rightarrow> nat \<Rightarrow> 'g \<Rightarrow> failure + (int list \<times> 'g)" where
  "sample_transitions draw 0 memory_size g = Inr ([], g)"
| "sample_transitions draw (Suc count) memory_size g =
     (case uniform_int_distribution draw 0 (int memory_size - 1) g of
        Inl e \<Rightarrow> Inl e
      | Inr (random_transition_idx, g') \<Rightarrow>
          (case sample_transitions draw count memory_size g' of
             Inl e \<Rightarrow> Inl e
           | Inr (transitions, g'') \<Rightarrow> Inr (random_transition_idx # transitions, g'')))"

text \<open>The inner loop over \<open>j\<close>: frame \<open>j\<close> of the transition goes to its slot of input row \<open>i\<close>.\<close>

fun copy_input_frames ::
    "nat \<Rightarrow> nat \<Rightarrow> InputFrames \<Rightarrow> nat \<Rightarrow> nat list \<Rightarrow> real list \<Rightarrow> failure + real list" where
  "copy_input_frames S K frames i [] frames_input = Inr frames_input"
| "copy_input_frames S K frames i (j # js) frames_input =
     (case at_index frames (int j) of
        Inl e \<Rightarrow> Inl e
      | Inr frame_data \<Rightarrow>
          (case std_copy (map float_of_uint8 frame_data) frames_input
                  (i * kInputDataSize S K + j * kCroppedFrameDataSize S) of
             Inl e \<Rightarrow> Inl e
           | Inr frames_input' \<Rightarrow> copy_input_frames S K frames i js frames_input'))"

text \<open>One pass of the second loop of \<^verbatim>\<open>Update\<close>, for row \<open>i\<close> and the index drawn for it.\<close>

definition assemble_row ::
    "nat \<Rightarrow> nat \<Rightarrow> int \<Rightarrow> Transition list \<Rightarrow> nat \<Rightarrow> int \<Rightarrow> real list \<Rightarrow> real list \<Rightarrow>
     failure + (real list \<times> real list)" where
  "assemble_row S K kOutputCount replay_memory i idx frames_input target_input =
     (case at_index replay_memory idx of
        Inl e \<Rightarrow> Inl e
      | Inr transition \<Rightarrow>
          if \<not> get1 transition < kOutputCount then Inl (Assertion_failed Action_range)
          else if \<not> (- 1 \<le> get2 transition \<and> get2 transition \<le> 1)
          then Inl (Assertion_failed Reward_range)
          else
            (case (case get3 transition of
                     None \<Rightarrow> std_fill target_input (i * kCroppedFrameDataSize S)
                               ((i + 1) * kCroppedFrameDataSize S) 0
                   | Some next_frame_data \<Rightarrow>
                       std_copy (map float_of_uint8 next_frame_data) target_input
                         (i * kCroppedFrameDataSize S)) of
               Inl e \<Rightarrow> Inl e
             | Inr target_input' \<Rightarrow>
                 (case copy_input_frames S K (get0 transition) i [0..<K] frames_input of
                    Inl e \<Rightarrow> Inl e
                  | Inr frames_input' \<Rightarrow> Inr (frames_input', target_input'))))"

fun assemble_rows ::
    "nat \<Rightarrow> nat \<Rightarrow> int \<Rightarrow> Transition list \<Rightarrow> nat \<Rightarrow> int list \<Rightarrow> real list \<Rightarrow> real list \<Rightarrow>
     failure + (real list \<times> real list)" where
  "assemble_rows S K kOutputCount replay_memory i [] frames_input target_input =
     Inr (frames_input, target_input)"
| "assemble_rows S K kOutputCount replay_memory i (idx # transitions) frames_input target_input =
     (case assemble_row S K kOutputCount replay_memory i idx frames_input target_input of
        Inl e \<Rightarrow> Inl e
      | Inr (frames_input', target_input') \<Rightarrow>
          assemble_rows S K kOutputCount replay_memory (Suc i) transitions
            frames_input' target_input')"

text \<open>
  \<^verbatim>\<open>Update\<close> up to the call of \<^verbatim>\<open>InputDataIntoLayers\<close>: the result is the pair of arrays
  handed to the network (the solver step is the external collaborator's) and the engine
  state. The two arrays are not initialised by the source: their first contents are the
  arguments \<open>frames_input\<close> and \<open>target_input\<close>.
\<close>

definition Update ::
    "'g distribution \<Rightarrow> nat \<Rightarrow> nat \<Rightarrow> nat \<Rightarrow> int \<Rightarrow> Transition list \<Rightarrow> real list \<Rightarrow> real list \<Rightarrow> 'g \<Rightarrow>
     failure + ((real list \<times> real list) \<times> 'g)" where
  "Update draw S K M kOutputCount replay_memory frames_input target_input g =
     (case sample_transitions draw M (length replay_memory) g of
        Inl e \<Rightarrow> Inl e
      | Inr (transitions, g') \<Rightarrow>
          (case assemble_rows S K kOutputCount replay_memory 0 transitions
                  frames_input target_input of
             Inl e \<Rightarrow> Inl e
           | Inr bufs \<Rightarrow> Inr (bufs, g')))"

text \<open>Row \<open>i\<close> of an array of rows of \<open>n\<close> values.\<close>

definition row :: "nat \<Rightarrow> nat \<Rightarrow> 'a list \<Rightarrow> 'a list" where
  "row n i arr = take n (drop (i * n) arr)"

text \<open>
  The target row the spec describes for a transition: zeros for a terminal one, the values
  of the next frame otherwise.
\<close>

definition spec_target_row :: "nat \<Rightarrow> Transition \<Rightarrow> real list" where
  "spec_target_row S t =
     (case get3 t of
        None \<Rightarrow> replicate (kCroppedFrameDataSize S) 0
      | Some next_frame \<Rightarrow> map float_of_uint8 next_frame)"

text \<open>
  What the C++ types fix about a stored transition: \<open>K\<close> input frames, and \<open>S \<cdot> S\<close> values in
  every frame.
\<close>

definition well_formed :: "nat \<Rightarrow> nat \<Rightarrow> Transition \<Rightarrow> bool" where
  "well_formed S K t \<longleftrightarrow>
     length (get0 t) = K \<and>
     (\<forall>f \<in> set (get0 t). length f = kCroppedFrameDataSize S) \<and>
     (\<forall>f. get3 t = Some f \<longrightarrow> length f = kCroppedFrameDataSize S)"

text \<open>The two assertions \<^verbatim>\<open>Update\<close> makes on a sampled transition.\<close>

definition passes_assertions :: "int \<Rightarrow> Transition \<Rightarrow> bool" where
  "passes_assertions kOutputCount t \<longleftrightarrow>
     get1 t < kOutputCount \<and> - 1 \<le> get2 t \<and> get2 t \<le> 1"

section \<open>Floating-point arithmetic\<close>

text \<open>
  The arithmetic of \<^verbatim>\<open>PreprocessScreen\<close> and \<^verbatim>\<open>RGBToGrayscale\<close> is IEEE 754 arithmetic on
  \<^verbatim>\<open>double\<close> (and on \<^verbatim>\<open>float\<close> for one division): every operation returns the exact result
  rounded to the nearest value of the format, ties going to the even significand. A
  floating-point value is modelled by the real number it denotes, and each operation by the
  exact operation followed by the rounding \<open>round_to p\<close>, with \<open>p = 53\<close> significant bits for
  \<^verbatim>\<open>double\<close> and \<open>p = 24\<close> for \<^verbatim>\<open>float\<close>. Each operation is rounded on its own, in its own
  format (no fused multiply-add, no wider intermediate format), as on the x86-64 target.
  The exponent is not bounded: the magnitudes that occur for screens whose sides fit a C
  \<^verbatim>\<open>int\<close> are far from the overflow and underflow thresholds of both formats. Infinities
  and NaN arise from a division by zero only, which the model treats where it happens.
\<close>

definition round_half_even :: "real \<Rightarrow> int" where
  "round_half_even y =
     (let n = \<lfloor>y\<rfloor>; r = y - of_int n
      in if r < 1 / 2 then n else if 1 / 2 < r then n + 1 else if even n then n else n + 1)"

text \<open>The exponent \<open>e\<close> of a non-zero real: \<open>2\<^sup>e \<le> \<bar>x\<bar> < 2\<^sup>e\<^sup>+\<^sup>1\<close>.\<close>

definition exponent :: "real \<Rightarrow> int" where
  "exponent x =
     (if 1 \<le> \<bar>x\<bar> then bitlen \<lfloor>\<bar>x\<bar>\<rfloor> - 1 else - bitlen (\<lceil>1 / \<bar>x\<bar>\<rceil> - 1))"

definition round_to :: "nat \<Rightarrow> real \<Rightarrow> real" where
  "round_to p x =
     (if x = 0 then 0
      else let u = 2 powi (exponent x - int p + 1)
           in of_int (round_half_even (x / u)) * u)"

definition to_double :: "real \<Rightarrow> real" where
  "to_double = round_to 53"

definition to_float :: "real \<Rightarrow> real" where
  "to_float = round_to 24"

text \<open>The four operations on \<^verbatim>\<open>double\<close>, and the division on \<^verbatim>\<open>float\<close>.\<close>

definition dadd :: "real \<Rightarrow> real \<Rightarrow> real" where "dadd a b = to_double (a + b)"
definition dsub :: "real \<Rightarrow> real \<Rightarrow> real" where "dsub a b = to_double (a - b)"
definition dmul :: "real \<Rightarrow> real \<Rightarrow> real" where "dmul a b = to_double (a * b)"
definition ddiv :: "real \<Rightarrow> real \<Rightarrow> real" where "ddiv a b = to_double (a / b)"
definition fdiv :: "real \<Rightarrow> real \<Rightarrow> real" where "fdiv a b = to_float (a / b)"

text \<open>\<^verbatim>\<open>static_cast<int>\<close> of a floating value drops the fraction (rounds towards zero).\<close>

definition static_cast_int :: "real \<Rightarrow> int" where
  "static_cast_int v = (if 0 \<le> v then \<lfloor>v\<rfloor> else \<lceil>v\<rceil>)"

text \<open>
  The conversion of a \<^verbatim>\<open>double\<close> to \<^verbatim>\<open>uint8_t\<close>: the fraction is dropped, and the behaviour is
  undefined when the result is not a value of the type.
\<close>

definition double_to_uint8 :: "real \<Rightarrow> failure + 8 word" where
  "double_to_uint8 v =
     (let t = static_cast_int v
      in if 0 \<le> t \<and> t \<le> 255 then Inr (word_of_int t)
         else Inl (Undefined_behaviour Float_to_uint8))"

section \<open>Grayscale\<close>

definition ntsc_to_rgb :: "int list" where
  "ntsc_to_rgb = [
      0x000000, 0, 0x4A4A4A, 0, 0x6F6F6F, 0, 0x8E8E8E, 0,
      0xAAAAAA, 0, 0xC0C0C0, 0, 0xD6D6D6, 0, 0xECECEC, 0,
      0x484800, 0, 0x69690F, 0, 0x86861D, 0, 0xA2A22A, 0,
      0xBBBB35, 0, 0xD2D240, 0, 0xE8E84A, 0, 0xFCFC54, 0,
      0x7C2C00, 0, 0x904811, 0, 0xA26221, 0, 0xB47A30, 0,
      0xC3903D, 0, 0xD2A44A, 0, 0xDFB755, 0, 0xECC860, 0,
      0x901C00, 0, 0xA33915, 0, 0xB55328, 0, 0xC66C3A, 0,
      0xD5824A, 0, 0xE39759, 0, 0xF0AA67, 0, 0xFCBC74, 0,
      0x940000, 0, 0xA71A1A, 0, 0xB83232, 0, 0xC84848, 0,
      0xD65C5C, 0, 0xE46F6F, 0, 0xF08080, 0, 0xFC9090, 0,
      0x840064, 0, 0x97197A, 0, 0xA8308F, 0, 0xB846A2, 0,
      0xC659B3, 0, 0xD46CC3, 0, 0xE07CD2, 0, 0xEC8CE0, 0,
      0x500084, 0, 0x68199A, 0, 0x7D30AD, 0, 0x9246C0, 0,
      0xA459D0, 0, 0xB56CE0, 0, 0xC57CEE, 0, 0xD48CFC, 0,
      0x140090, 0, 0x331AA3, 0, 0x4E32B5, 0, 0x6848C6, 0,
      0x7F5CD5, 0, 0x956FE3, 0, 0xA980F0, 0, 0xBC90FC, 0,
      0x000094, 0, 0x181AA7, 0, 0x2D32B8, 0, 0x4248C8, 0,
      0x545CD6, 0, 0x656FE4, 0, 0x7580F0, 0, 0x8490FC, 0,
      0x001C88, 0, 0x183B9D, 0, 0x2D57B0, 0, 0x4272C2, 0,
      0x548AD2, 0, 0x65A0E1, 0, 0x75B5EF, 0, 0x84C8FC, 0,
      0x003064, 0, 0x185080, 0, 0x2D6D98, 0, 0x4288B0, 0,
      0x54A0C5, 0, 0x65B7D9, 0, 0x75CCEB, 0, 0x84E0FC, 0,
      0x004030, 0, 0x18624E, 0, 0x2D8169, 0, 0x429E82, 0,
      0x54B899, 0, 0x65D1AE, 0, 0x75E7C2, 0, 0x84FCD4, 0,
      0x004400, 0, 0x1A661A, 0, 0x328432, 0, 0x48A048, 0,
      0x5CBA5C, 0, 0x6FD26F, 0, 0x80E880, 0, 0x90FC90, 0,
      0x143C00, 0, 0x355F18, 0, 0x527E2D, 0, 0x6E9C42, 0,
      0x87B754, 0, 0x9ED065, 0, 0xB4E775, 0, 0xC8FC84, 0,
      0x303800, 0, 0x505916, 0, 0x6D762B, 0, 0x88923E, 0,
      0xA0AB4F, 0, 0xB7C25F, 0, 0xCCD86E, 0, 0xE0EC7C, 0,
      0x482C00, 0, 0x694D14, 0, 0x866A26, 0, 0xA28638, 0,
      0xBB9F47, 0, 0xD2B656, 0, 0xE8CC63, 0, 0xFCE070, 0
    ]"

text \<open>\<^verbatim>\<open>pixel_t\<close> is a byte, so the index is inside the table of 256 entries.\<close>

definition PixelToRGB :: "8 word \<Rightarrow> int \<times> int \<times> int" where
  "PixelToRGB pixel =
     (let rgb = ntsc_to_rgb ! unat pixel;
          r = drop_bit 16 rgb;
          g = drop_bit 8 rgb AND 0xFF;
          b = rgb AND 0xFF
      in (r, g, b))"

definition RGBToGrayscale :: "int \<times> int \<times> int \<Rightarrow> failure + 8 word" where
  "RGBToGrayscale rgb =
     (case rgb of (r, g, b) \<Rightarrow>
        if \<not> (0 \<le> r \<and> r \<le> 255) then Inl (Assertion_failed Rgb_range)
        else if \<not> (0 \<le> g \<and> g \<le> 255) then Inl (Assertion_failed Rgb_range)
        else if \<not> (0 \<le> b \<and> b \<le> 255) then Inl (Assertion_failed Rgb_range)
        else double_to_uint8
               (dadd (dadd (dmul (of_int r) (to_double 0.21)) (dmul (of_int g) (to_double 0.72)))
                  (dmul (of_int b) (to_double 0.07))))"

definition PixelToGrayscale :: "8 word \<Rightarrow> failure + 8 word" where
  "PixelToGrayscale pixel = RGBToGrayscale (PixelToRGB pixel)"

section \<open>Screen preprocessing\<close>

text \<open>
  \<^verbatim>\<open>ALEScreen\<close> belongs to the emulator library: a width, a height and the array of
  \<open>width \<cdot> height\<close> pixels, one row after the other. \<^verbatim>\<open>kCroppedFrameSize\<close> is the parameter
  \<open>S\<close>, a positive constant of the missing header (84 for the emulator's network). The sides
  of a screen and the loop variables are C \<^verbatim>\<open>int\<close> values; the model computes with the
  integers they denote, and the floors it converts to \<^verbatim>\<open>int\<close> are never beyond a side of the
  screen.
\<close>

record ALEScreen =
  width :: int
  height :: int
  getArray :: "8 word list"

definition cropped_screen_height :: "int \<Rightarrow> int" where
  "cropped_screen_height raw_screen_height =
     static_cast_int (dmul (to_double 0.92) (of_int raw_screen_height))"

definition start_y :: "int \<Rightarrow> int" where
  "start_y raw_screen_height =
     static_cast_int
       (fdiv (to_float (of_int (raw_screen_height - cropped_screen_height raw_screen_height))) 2)"

definition start_x :: int where
  "start_x = 8"

definition cropped_screen_width :: "int \<Rightarrow> int" where
  "cropped_screen_width raw_screen_width = raw_screen_width - start_x"

definition x_ratio :: "int \<Rightarrow> int \<Rightarrow> real" where
  "x_ratio S raw_screen_width = ddiv (of_int (cropped_screen_width raw_screen_width)) (of_int S)"

definition y_ratio :: "int \<Rightarrow> int \<Rightarrow> real" where
  "y_ratio S raw_screen_height = ddiv (of_int (cropped_screen_height raw_screen_height)) (of_int S)"

definition first_x :: "int \<Rightarrow> int \<Rightarrow> int \<Rightarrow> int" where
  "first_x S W j = start_x + \<lfloor>dmul (of_int j) (x_ratio S W)\<rfloor>"

definition last_x :: "int \<Rightarrow> int \<Rightarrow> int \<Rightarrow> int" where
  "last_x S W j = start_x + \<lfloor>dmul (of_int (j + 1)) (x_ratio S W)\<rfloor>"

definition first_y :: "int \<Rightarrow> int \<Rightarrow> int \<Rightarrow> int" where
  "first_y S H i = start_y H + \<lfloor>dmul (of_int i) (y_ratio S H)\<rfloor>"

definition last_y :: "int \<Rightarrow> int \<Rightarrow> int \<Rightarrow> int" where
  "last_y S H i = start_y H + \<lfloor>dmul (of_int (i + 1)) (y_ratio S H)\<rfloor>"

definition x_ratio_in_resulting_pixel :: "int \<Rightarrow> int \<Rightarrow> int \<Rightarrow> int \<Rightarrow> real" where
  "x_ratio_in_resulting_pixel S W j x =
     (if x = first_x S W j
      then dsub (dsub (of_int (x + 1)) (dmul (of_int j) (x_ratio S W))) (of_int start_x)
      else if x = last_x S W j
      then dadd (dsub (dmul (x_ratio S W) (of_int (j + 1))) (of_int x)) (of_int start_x)
      else 1)"

definition y_ratio_in_resulting_pixel :: "int \<Rightarrow> int \<Rightarrow> int \<Rightarrow> int \<Rightarrow> real" where
  "y_ratio_in_resulting_pixel S H i y =
     (if y = first_y S H i
      then dsub (dsub (of_int (y + 1)) (dmul (of_int i) (y_ratio S H))) (of_int (start_y H))
      else if y = last_y S H i
      then dadd (dsub (dmul (y_ratio S H) (of_int (i + 1))) (of_int y)) (of_int (start_y H))
      else 1)"

text \<open>
  The factor a source pixel is multiplied with:
  \<^verbatim>\<open>(x_ratio_in_resulting_pixel / x_ratio) * (y_ratio_in_resulting_pixel / y_ratio)\<close>.
\<close>

definition pixel_weight :: "int \<Rightarrow> int \<Rightarrow> int \<Rightarrow> int \<Rightarrow> int \<Rightarrow> int \<Rightarrow> int \<Rightarrow> real" where
  "pixel_weight S W H i j x y =
     dmul (ddiv (x_ratio_in_resulting_pixel S W j x) (x_ratio S W))
          (ddiv (y_ratio_in_resulting_pixel S H i y) (y_ratio S H))"

text \<open>
  The statement \<^verbatim>\<open>resulting_color += weight * grayscale\<close> on the \<^verbatim>\<open>uint8_t\<close> accumulator: the
  sum is formed in \<^verbatim>\<open>double\<close> and converted back to \<^verbatim>\<open>uint8_t\<close> at once. A zero ratio makes
  the weight infinite or NaN, and so the sum, which has no \<^verbatim>\<open>uint8_t\<close> value.
\<close>

definition add_to_color :: "int \<Rightarrow> int \<Rightarrow> int \<Rightarrow> int \<Rightarrow> int \<Rightarrow> int \<Rightarrow> int \<Rightarrow> 8 word \<Rightarrow> 8 word \<Rightarrow>
    failure + 8 word" where
  "add_to_color S W H i j x y grayscale resulting_color =
     (if x_ratio S W = 0 \<or> y_ratio S H = 0 then Inl (Undefined_behaviour Float_to_uint8)
      else double_to_uint8
             (dadd (real (unat resulting_color))
                (dmul (pixel_weight S W H i j x y) (real (unat grayscale)))))"

text \<open>The loop over \<open>y\<close>, for one column \<open>x\<close> of the cell \<open>(i, j)\<close>.\<close>

fun y_loop :: "int \<Rightarrow> ALEScreen \<Rightarrow> int \<Rightarrow> int \<Rightarrow> int \<Rightarrow> int list \<Rightarrow> 8 word \<Rightarrow> failure + 8 word" where
  "y_loop S raw_screen i j x [] resulting_color = Inr resulting_color"
| "y_loop S raw_screen i j x (y # ys) resulting_color =
     (let y_weight = y_ratio_in_resulting_pixel S (height raw_screen) i y
      in if \<not> (0 \<le> y_weight \<and> y_weight \<le> 1) then Inl (Assertion_failed Y_weight_range)
         else
           (case at_index (getArray raw_screen) (y * width raw_screen + x) of
              Inl e \<Rightarrow> Inl e
            | Inr pixel \<Rightarrow>
                (case PixelToGrayscale pixel of
                   Inl e \<Rightarrow> Inl e
                 | Inr grayscale \<Rightarrow>
                     (case add_to_color S (width raw_screen) (height raw_screen) i j x y
                             grayscale resulting_color of
                        Inl e \<Rightarrow> Inl e
                      | Inr resulting_color' \<Rightarrow>
                          y_loop S raw_screen i j x ys resulting_color'))))"

text \<open>The loop over \<open>x\<close>.\<close>

fun x_loop :: "int \<Rightarrow> ALEScreen \<Rightarrow> int \<Rightarrow> int \<Rightarrow> int list \<Rightarrow> 8 word \<Rightarrow> failure + 8 word" where
  "x_loop S raw_screen i j [] resulting_color = Inr resulting_color"
| "x_loop S raw_screen i j (x # xs) resulting_color =
     (let x_weight = x_ratio_in_resulting_pixel S (width raw_screen) j x
      in if \<not> (0 \<le> x_weight \<and> x_weight \<le> 1) then Inl (Assertion_failed X_weight_range)
         else
           (case y_loop S raw_screen i j x
                   [first_y S (height raw_screen) i..last_y S (height raw_screen) i]
                   resulting_color of
              Inl e \<Rightarrow> Inl e
            | Inr resulting_color' \<Rightarrow> x_loop S raw_screen i j xs resulting_color'))"

text \<open>The value stored in cell \<open>(i, j)\<close> of the frame.\<close>

definition resulting_pixel :: "int \<Rightarrow> ALEScreen \<Rightarrow> int \<Rightarrow> int \<Rightarrow> failure + 8 word" where
  "resulting_pixel S raw_screen i j =
     x_loop S raw_screen i j
       [first_x S (width raw_screen) j..last_x S (width raw_screen) j] 0"

text \<open>The cells in the order the loops fill them; the first failure ends the run.\<close>

fun collect :: "(failure + 'a) list \<Rightarrow> failure + 'a list" where
  "collect [] = Inr []"
| "collect (r # rs) =
     (case r of
        Inl e \<Rightarrow> Inl e
      | Inr v \<Rightarrow> (case collect rs of Inl e \<Rightarrow> Inl e | Inr vs \<Rightarrow> Inr (v # vs)))"

definition PreprocessScreen :: "int \<Rightarrow> ALEScreen \<Rightarrow> failure + 8 word list" where
  "PreprocessScreen S raw_screen =
     (if \<not> height raw_screen > width raw_screen then Inl (Assertion_failed Height_gt_width)
      else collect (map (\<lambda>(i, j). resulting_pixel S raw_screen i j)
                     (List.product [0..S - 1] [0..S - 1])))"

text \<open>
  The sum the spec describes for a cell: the real-valued sum of weight times grayscale over
  the pixels the loops visit, to be converted to an integer once, at the end.
\<close>

definition spec_grayscale :: "8 word \<Rightarrow> real" where
  "spec_grayscale pixel = (case PixelToGrayscale pixel of Inl e \<Rightarrow> 0 | Inr g \<Rightarrow> real (unat g))"

definition spec_weighted_sum :: "int \<Rightarrow> ALEScreen \<Rightarrow> int \<Rightarrow> int \<Rightarrow> real" where
  "spec_weighted_sum S raw_screen i j =
     (\<Sum>x \<leftarrow> [first_x S (width raw_screen) j..last_x S (width raw_screen) j].
        \<Sum>y \<leftarrow> [first_y S (height raw_screen) i..last_y S (height raw_screen) i].
          (x_ratio_in_resulting_pixel S (width raw_screen) j x / x_ratio S (width raw_screen)) *
          (y_ratio_in_resulting_pixel S (height raw_screen) i y / y_ratio S (height raw_screen)) *
          spec_grayscale (getArray raw_screen ! nat (y * width raw_screen + x)))"

text \<open>The total weight of the pixels the loops visit for the cell \<open>(i, j)\<close>.\<close>

definition weight_total :: "int \<Rightarrow> int \<Rightarrow> int \<Rightarrow> int \<Rightarrow> int \<Rightarrow> real" where
  "weight_total S W H i j =
     (\<Sum>x \<leftarrow> [first_x S W j..last_x S W j]. \<Sum>y \<leftarrow> [first_y S H i..last_y S H i].
        pixel_weight S W H i j x y)"

text \<open>A screen whose pixels all hold the same palette index, to run the model on.\<close>

definition uniform_screen :: "int \<Rightarrow> int \<Rightarrow> 8 word \<Rightarrow> ALEScreen" where
  "uniform_screen W H pixel = \<lparr>width = W, height = H, getArray = replicate (nat (W * H)) pixel\<rparr>"

section \<open>Properties of the replay memory\<close>

lemma AddTransition_full:
  assumes "1 \<le> capacity" and "length replay_memory = capacity"
  shows "AddTransition capacity replay_memory t = Inr (tl replay_memory @ [t])"
  using assms by (cases replay_memory) (simp_all add: AddTransition_def)

lemma AddTransition_not_full:
  assumes "length replay_memory \<noteq> capacity"
  shows "AddTransition capacity replay_memory t = Inr (replay_memory @ [t])"
  using assms by (simp add: AddTransition_def)

lemma AddTransition_keeps_last:
  assumes "1 \<le> capacity" and "length replay_memory \<le> capacity"
  shows "AddTransition capacity replay_memory t =
           Inr (drop (Suc (length replay_memory) - capacity) (replay_memory @ [t]))"
proof (cases "length replay_memory = capacity")
  case True
  then have "replay_memory \<noteq> []" using assms(1) by auto
  then have "drop (Suc (length replay_memory) - capacity) (replay_memory @ [t])
               = tl replay_memory @ [t]"
    using True by (cases replay_memory) simp_all
  then show ?thesis using AddTransition_full [OF assms(1) True] by simp
next
  case False
  then have "Suc (length replay_memory) - capacity = 0" using assms(2) by simp
  then show ?thesis using AddTransition_not_full [OF False] by simp
qed

lemma AddTransitions_keeps_last:
  assumes "1 \<le> capacity" and "length replay_memory \<le> capacity"
  shows "AddTransitions capacity replay_memory ts =
           Inr (drop (length replay_memory + length ts - capacity) (replay_memory @ ts))"
  using assms(2)
proof (induction ts arbitrary: replay_memory)
  case Nil
  then show ?case by simp
next
  case (Cons t ts)
  let ?m = "drop (Suc (length replay_memory) - capacity) (replay_memory @ [t])"
  have step: "AddTransition capacity replay_memory t = Inr ?m"
    by (rule AddTransition_keeps_last [OF assms(1) Cons.prems])
  have len: "length ?m = min (Suc (length replay_memory)) capacity"
    by simp
  then have le: "length ?m \<le> capacity" by simp
  have "AddTransitions capacity ?m ts
          = Inr (drop (length ?m + length ts - capacity) (?m @ ts))"
    by (rule Cons.IH [OF le])
  also have "drop (length ?m + length ts - capacity) (?m @ ts)
               = drop (length replay_memory + length (t # ts) - capacity) (replay_memory @ t # ts)"
  proof (cases "Suc (length replay_memory) \<le> capacity")
    case True
    then show ?thesis by simp
  next
    case False
    then have full: "length replay_memory = capacity" using Cons.prems by simp
    then obtain oldest rest where mem: "replay_memory = oldest # rest"
      using assms(1) by (cases replay_memory) auto
    show ?thesis using full by (simp add: mem)
  qed
  finally show ?case using step by simp
qed

text \<open>
  Claim C3. With a capacity \<open>C \<ge> 1\<close> and a memory holding at most \<open>C\<close> transitions, every call
  of \<open>AddTransition\<close> returns a memory of at most \<open>C\<close> transitions; a call made when the
  memory holds exactly \<open>C\<close> transitions drops the oldest one only and appends the new one
  behind the others, whose order is kept; any sequence of pushes into the empty memory
  leaves its last \<open>C\<close> transitions in the order they were pushed (and so does each of its
  prefixes); with \<open>C = 3\<close>, pushing \<open>t1, t2, t3, t4\<close> leaves \<open>[t2, t3, t4]\<close>.
\<close>

theorem replay_memory_fifo:
  assumes "1 \<le> C"
  shows "(length m \<le> C \<longrightarrow>
           (\<exists>m'. AddTransition C m t = Inr m' \<and> length m' \<le> C \<and>
                 (length m = C \<longrightarrow> m' = tl m @ [t]) \<and>
                 (length m < C \<longrightarrow> m' = m @ [t]))) \<and>
         (\<forall>n \<le> length ts.
           AddTransitions C [] (take n ts) = Inr (drop (n - C) (take n ts)) \<and>
           length (drop (n - C) (take n ts)) \<le> C) \<and>
         AddTransitions 3 [] [t1, t2, t3, t4] = Inr [t2, t3, t4]"
proof (intro conjI)
  show "length m \<le> C \<longrightarrow>
           (\<exists>m'. AddTransition C m t = Inr m' \<and> length m' \<le> C \<and>
                 (length m = C \<longrightarrow> m' = tl m @ [t]) \<and>
                 (length m < C \<longrightarrow> m' = m @ [t]))"
  proof (cases "length m = C")
    case True
    then show ?thesis using AddTransition_full [OF assms True] assms
      by (cases m) auto
  next
    case False
    then show ?thesis using AddTransition_not_full [OF False] by auto
  qed
  show "\<forall>n \<le> length ts.
           AddTransitions C [] (take n ts) = Inr (drop (n - C) (take n ts)) \<and>
           length (drop (n - C) (take n ts)) \<le> C"
  proof (intro allI impI)
    fix n assume n: "n \<le> length ts"
    have "AddTransitions C [] (take n ts)
            = Inr (drop (length ([] :: 'b list) + length (take n ts) - C) ([] @ take n ts))"
      by (rule AddTransitions_keeps_last [OF assms]) simp
    then show "AddTransitions C [] (take n ts) = Inr (drop (n - C) (take n ts)) \<and>
           length (drop (n - C) (take n ts)) \<le> C"
      using n by simp
  qed
  show "AddTransitions 3 [] [t1, t2, t3, t4] = Inr [t2, t3, t4]"
    by (simp add: AddTransition_def)
qed

theorem replay_memory_fifo_witness:
  "(1::nat) \<le> 3 \<and>
   AddTransition 3 [10, 20, 30 :: nat] 40 = Inr [20, 30, 40] \<and>
   AddTransitions 3 [] (take 5 [1, 2, 3, 4, 5, 6 :: nat]) = Inr [3, 4, 5]"
proof -
  have h: "(1::nat) \<le> 3" by simp
  show ?thesis
    using h replay_memory_fifo [OF h, of "[10, 20, 30 :: nat]" 40 "[1, 2, 3, 4, 5, 6 :: nat]"]
    by (auto simp: AddTransition_def)
qed

section \<open>Properties of the random draws and of action selection\<close>

lemma congruential_within_bounds: "within_bounds congruential"
  unfolding within_bounds_def congruential_def
proof (intro allI impI)
  fix a b g :: int
  assume "a \<le> b"
  then have pos: "0 < b - a + 1" by simp
  have "0 \<le> g mod (b - a + 1)" by (rule pos_mod_sign [OF pos])
  moreover have "g mod (b - a + 1) < b - a + 1" by (rule pos_mod_bound [OF pos])
  ultimately show "a \<le> fst (a + g mod (b - a + 1), (g * 48271 + 11) mod 2147483647) \<and>
        fst (a + g mod (b - a + 1), (g * 48271 + 11) mod 2147483647) \<le> b"
    by simp
qed

lemma sample_transitions_in_range:
  assumes "within_bounds draw" and "1 \<le> n"
  shows "\<exists>transitions g'. sample_transitions draw M n g = Inr (transitions, g') \<and>
           length transitions = M \<and> (\<forall>idx \<in> set transitions. 0 \<le> idx \<and> idx < int n)"
proof (induction M arbitrary: g)
  case 0
  then show ?case by simp
next
  case (Suc M)
  obtain k g1 where d: "draw 0 (int n - 1) g = (k, g1)"
    by (cases "draw 0 (int n - 1) g")
  have le: "(0::int) \<le> int n - 1" using assms(2) by linarith
  have "0 \<le> fst (draw 0 (int n - 1) g) \<and> fst (draw 0 (int n - 1) g) \<le> int n - 1"
    using assms(1) le unfolding within_bounds_def by blast
  then have k: "0 \<le> k" "k < int n" using d by simp_all
  obtain ts g2 where r: "sample_transitions draw M n g1 = Inr (ts, g2)"
    "length ts = M" "\<forall>idx \<in> set ts. 0 \<le> idx \<and> idx < int n"
    using Suc.IH [of g1] by blast
  have "sample_transitions draw (Suc M) n g = Inr (k # ts, g2)"
    using le d r(1) by (simp add: uniform_int_distribution_def)
  then show ?case using r(2,3) k by simp
qed

text \<open>
  Claim C9. For a distribution that keeps the library's promise and a set of \<open>L \<ge> 1\<close> legal
  actions, \<open>SelectAction\<close> returns, whatever the frames, the epsilon and the engine state, and
  the action it returns is one of the legal actions.
\<close>

theorem SelectAction_returns_legal_action:
  assumes "within_bounds draw" and "1 \<le> length legal_actions"
  shows "\<exists>a g'. SelectAction draw legal_actions last_frames epsilon g = Inr (a, g') \<and>
                 a \<in> set legal_actions"
proof -
  obtain k g' where d: "draw 0 (int (length legal_actions) - 1) g = (k, g')"
    by (cases "draw 0 (int (length legal_actions) - 1) g")
  have le: "(0::int) \<le> int (length legal_actions) - 1" using assms(2) by linarith
  have "0 \<le> fst (draw 0 (int (length legal_actions) - 1) g) \<and>
        fst (draw 0 (int (length legal_actions) - 1) g) \<le> int (length legal_actions) - 1"
    using assms(1) le unfolding within_bounds_def by blast
  then have k: "0 \<le> k" "k < int (length legal_actions)" using d by simp_all
  then have "nat k < length legal_actions" by simp
  then have "legal_actions ! nat k \<in> set legal_actions" by simp
  moreover have "SelectAction draw legal_actions last_frames epsilon g
                   = Inr (legal_actions ! nat k, g')"
    using le k d by (simp add: SelectAction_def uniform_int_distribution_def at_index_def)
  ultimately show ?thesis by blast
qed

theorem SelectAction_returns_legal_action_witness:
  "within_bounds congruential \<and> 1 \<le> length [10, 20, 30 :: nat] \<and>
   (\<exists>a g'. SelectAction congruential [10, 20, 30 :: nat] [[0 :: 8 word]] 0.1 7 = Inr (a, g') \<and>
            a \<in> set [10, 20, 30])"
proof -
  have h: "1 \<le> length [10, 20, 30 :: nat]" by simp
  show ?thesis
    using congruential_within_bounds h
      SelectAction_returns_legal_action [OF congruential_within_bounds h, of "[[0 :: 8 word]]" "0.1" "7"]
    by blast
qed

text \<open>
  Claim C8. The action \<open>SelectAction\<close> returns, and the engine state it leaves, depend on the
  distribution, the legal actions and the engine state only: two calls from the same engine
  state return the same result whatever their epsilon and their frame stack.
\<close>

theorem SelectAction_ignores_epsilon_and_frames:
  "SelectAction draw legal_actions last_frames epsilon g
     = SelectAction draw legal_actions last_frames' epsilon' g"
  by (simp add: SelectAction_def)

text \<open>
  What can stop the assembly of the minibatch: one of the two assertions, or an index outside
  an array. The draws are over by then.
\<close>

lemma at_index_failures:
  assumes "at_index xs k = Inl e"
  shows "e = Undefined_behaviour (Index_out_of_range k)"
  using assms by (auto simp: at_index_def split: if_splits)

lemma std_copy_failures:
  assumes "std_copy src arr out = Inl e"
  shows "\<exists>k. e = Undefined_behaviour (Index_out_of_range k)"
  using assms by (auto simp: std_copy_def split: if_splits)

lemma std_fill_failures:
  assumes "std_fill arr lo hi v = Inl e"
  shows "\<exists>k. e = Undefined_behaviour (Index_out_of_range k)"
  using assms by (auto simp: std_fill_def split: if_splits)

lemma copy_input_frames_failures:
  assumes "copy_input_frames S K frames i js frames_input = Inl e"
  shows "\<exists>k. e = Undefined_behaviour (Index_out_of_range k)"
  using assms
proof (induction js arbitrary: frames_input)
  case Nil
  then show ?case by simp
next
  case (Cons j js)
  show ?case
  proof (cases "at_index frames (int j)")
    case (Inl e1)
    then have "e = e1" using Cons.prems by simp
    then show ?thesis using at_index_failures [OF Inl] by blast
  next
    case frame: (Inr frame_data)
    show ?thesis
    proof (cases "std_copy (map float_of_uint8 frame_data) frames_input
                    (i * kInputDataSize S K + j * kCroppedFrameDataSize S)")
      case (Inl e1)
      then have "e = e1" using Cons.prems frame by simp
      then show ?thesis using std_copy_failures [OF Inl] by blast
    next
      case (Inr frames_input')
      then have "copy_input_frames S K frames i js frames_input' = Inl e"
        using Cons.prems frame by simp
      then show ?thesis by (rule Cons.IH)
    qed
  qed
qed

lemma assemble_row_failures:
  assumes "assemble_row S K kOutputCount replay_memory i idx frames_input target_input = Inl e"
  shows "e = Assertion_failed Action_range \<or> e = Assertion_failed Reward_range \<or>
         (\<exists>k. e = Undefined_behaviour (Index_out_of_range k))"
proof (cases "at_index replay_memory idx")
  case (Inl e1)
  then have "e = e1" using assms by (simp add: assemble_row_def)
  then show ?thesis using at_index_failures [OF Inl] by blast
next
  case tr: (Inr transition)
  let ?target = "case get3 transition of
                   None \<Rightarrow> std_fill target_input (i * kCroppedFrameDataSize S)
                             ((i + 1) * kCroppedFrameDataSize S) 0
                 | Some next_frame_data \<Rightarrow>
                     std_copy (map float_of_uint8 next_frame_data) target_input
                       (i * kCroppedFrameDataSize S)"
  consider "\<not> get1 transition < kOutputCount"
    | "get1 transition < kOutputCount" "\<not> (- 1 \<le> get2 transition \<and> get2 transition \<le> 1)"
    | "get1 transition < kOutputCount" "- 1 \<le> get2 transition \<and> get2 transition \<le> 1"
    by blast
  then show ?thesis
  proof cases
    case 1
    then show ?thesis using assms tr by (simp add: assemble_row_def)
  next
    case 2
    then show ?thesis using assms tr by (simp add: assemble_row_def)
  next
    case 3
    show ?thesis
    proof (cases ?target)
      case (Inl e1)
      then have "e = e1" using assms tr 3 by (simp add: assemble_row_def)
      moreover have "\<exists>k. e1 = Undefined_behaviour (Index_out_of_range k)"
        using Inl std_fill_failures std_copy_failures by (cases "get3 transition") auto
      ultimately show ?thesis by blast
    next
      case (Inr target_input')
      then have "copy_input_frames S K (get0 transition) i [0..<K] frames_input = Inl e"
        using assms tr 3 by (simp add: assemble_row_def split: sum.splits)
      then show ?thesis using copy_input_frames_failures by blast
    qed
  qed
qed

lemma assemble_rows_failures:
  assumes "assemble_rows S K kOutputCount replay_memory i transitions frames_input target_input
             = Inl e"
  shows "e = Assertion_failed Action_range \<or> e = Assertion_failed Reward_range \<or>
         (\<exists>k. e = Undefined_behaviour (Index_out_of_range k))"
  using assms
proof (induction transitions arbitrary: i frames_input target_input)
  case Nil
  then show ?case by simp
next
  case (Cons idx transitions)
  show ?case
  proof (cases "assemble_row S K kOutputCount replay_memory i idx frames_input target_input")
    case (Inl e1)
    then have "e = e1" using Cons.prems by simp
    then show ?thesis using assemble_row_failures [OF Inl] by simp
  next
    case (Inr bufs)
    obtain fi ti where "bufs = (fi, ti)" by (cases bufs)
    then have "assemble_rows S K kOutputCount replay_memory (Suc i) transitions fi ti = Inl e"
      using Cons.prems Inr by simp
    then show ?thesis by (rule Cons.IH)
  qed
qed

text \<open>
  Claim C2, as the code has it. \<open>Update\<close> makes no test on the size of the replay memory: its
  first statement draws an index between \<open>0\<close> and \<open>size() - 1\<close>. With at least one stored
  transition and a distribution that keeps the library's promise, the \<open>M\<close> draws succeed,
  every drawn index lies in \<open>[0, size())\<close>, the lookup of each index finds a transition, and
  whatever else stops \<open>Update\<close>, it is not a draw with bounds the library does not allow.
\<close>

theorem Update_samples_within_memory:
  assumes "within_bounds draw" and "1 \<le> length replay_memory"
  shows "(\<exists>transitions g'.
           sample_transitions draw M (length replay_memory) g = Inr (transitions, g') \<and>
           length transitions = M \<and>
           (\<forall>idx \<in> set transitions.
              0 \<le> idx \<and> idx < int (length replay_memory) \<and>
              at_index replay_memory idx = Inr (replay_memory ! nat idx))) \<and>
         (\<forall>a b. Update draw S K M kOutputCount replay_memory frames_input target_input g
                  \<noteq> Inl (Undefined_behaviour (Distribution_bounds a b)))"
proof -
  obtain transitions g' where r:
      "sample_transitions draw M (length replay_memory) g = Inr (transitions, g')"
      "length transitions = M"
      "\<forall>idx \<in> set transitions. 0 \<le> idx \<and> idx < int (length replay_memory)"
    using sample_transitions_in_range [OF assms, of M g] by blast
  have "Update draw S K M kOutputCount replay_memory frames_input target_input g
          \<noteq> Inl (Undefined_behaviour (Distribution_bounds a b))" for a b
  proof
    assume "Update draw S K M kOutputCount replay_memory frames_input target_input g
              = Inl (Undefined_behaviour (Distribution_bounds a b))"
    then have "assemble_rows S K kOutputCount replay_memory 0 transitions frames_input
                 target_input = Inl (Undefined_behaviour (Distribution_bounds a b))"
      using r(1) by (simp add: Update_def split: sum.splits)
    then show False using assemble_rows_failures by fastforce
  qed
  then show ?thesis using r by (auto simp: at_index_def)
qed

theorem Update_samples_within_memory_witness:
  "within_bounds congruential \<and>
   1 \<le> length [([[3]], 0, 0.5, None), ([[4]], 1, - 1, Some [9]) :: Transition] \<and>
   sample_transitions congruential 4
       (length [([[3]], 0, 0.5, None), ([[4]], 1, - 1, Some [9]) :: Transition]) 5
     = Inr ([1, 0, 0, 1], 18337893)"
proof -
  let ?mem = "[([[3]], 0, 0.5, None), ([[4]], 1, - 1, Some [9]) :: Transition]"
  have h: "1 \<le> length ?mem" by simp
  have "sample_transitions congruential 4 (length ?mem) 5 = Inr ([1, 0, 0, 1], 18337893)"
    by code_simp
  then show ?thesis
    using congruential_within_bounds h
      Update_samples_within_memory [OF congruential_within_bounds h, of 4 5]
    by simp
qed

text \<open>
  The claim fails on an empty memory: \<open>Update\<close> does not stop at a check of its own (the
  only checks it has are the two assertions on a transition it has already looked up), it
  reaches the draw, with the bounds \<open>0\<close> and \<open>-1\<close> that the library does not allow.
\<close>

theorem Update_on_empty_memory_draws:
  "sample_transitions congruential 32 (length ([] :: Transition list)) 1
     = Inl (Undefined_behaviour (Distribution_bounds 0 (- 1))) \<and>
   Update congruential 84 4 32 18 [] [] [] 1
     = Inl (Undefined_behaviour (Distribution_bounds 0 (- 1))) \<and>
   Update congruential 84 4 32 18 [] [] [] 1 \<noteq> Inl (Assertion_failed Action_range) \<and>
   Update congruential 84 4 32 18 [] [] [] 1 \<noteq> Inl (Assertion_failed Reward_range)"
proof -
  have "sample_transitions congruential 32 (length ([] :: Transition list)) 1
          = Inl (Undefined_behaviour (Distribution_bounds 0 (- 1)))"
    by code_simp
  moreover have "Update congruential 84 4 32 18 [] [] [] 1
          = Inl (Undefined_behaviour (Distribution_bounds 0 (- 1)))"
    by code_simp
  ultimately show ?thesis by simp
qed

section \<open>Properties of the minibatch assembly\<close>

lemma length_overwrite:
  "out + length src \<le> length arr \<Longrightarrow> length (overwrite arr out src) = length arr"
  by (simp add: overwrite_def)

lemma row_overwrite_same:
  assumes "length src = n" and "i * n + n \<le> length arr"
  shows "row n i (overwrite arr (i * n) src) = src"
  using assms by (simp add: row_def overwrite_def)

lemma row_overwrite_below:
  assumes "length src = n" and "i * n + n \<le> length arr" and "k < i"
  shows "row n k (overwrite arr (i * n) src) = row n k arr"
proof -
  have "Suc k \<le> i" using assms(3) by simp
  then have "Suc k * n \<le> i * n" by (rule mult_le_mono1)
  then have le: "k * n + n \<le> i * n" by simp
  then show ?thesis using assms(1,2)
    by (simp add: row_def overwrite_def take_drop min_def)
qed

lemma row_overwrite_above:
  assumes "length src = n" and "i * n + n \<le> length arr" and "i < k"
  shows "row n k (overwrite arr (i * n) src) = row n k arr"
proof -
  have "Suc i \<le> k" using assms(3) by simp
  then have "Suc i * n \<le> k * n" by (rule mult_le_mono1)
  then have le: "i * n + n \<le> k * n" by simp
  have le': "i * n \<le> k * n" using assms(3) by (simp add: mult_le_mono1)
  have "k * n - i * n - n + (i * n + n) = k * n" using le by simp
  then show ?thesis using assms(1,2) le le'
    by (simp add: row_def overwrite_def)
qed


lemma input_slot_fits:
  assumes "i < M" and "j < K"
  shows "i * (D * K) + j * D + D \<le> M * ((D::nat) * K)"
proof -
  have "Suc j \<le> K" using assms(2) by simp
  then have "Suc j * D \<le> K * D" by (rule mult_le_mono1)
  then have a: "j * D + D \<le> D * K" by (simp add: mult.commute)
  have "Suc i \<le> M" using assms(1) by simp
  then have "Suc i * (D * K) \<le> M * (D * K)" by (rule mult_le_mono1)
  then have b: "i * (D * K) + D * K \<le> M * (D * K)" by simp
  show ?thesis using a b by linarith
qed

lemma copy_input_frames_ok:
  assumes "length frames = K"
    and "\<forall>f \<in> set frames. length f = kCroppedFrameDataSize S"
    and "i < M"
    and "length frames_input = M * kInputDataSize S K"
    and "set js \<subseteq> {0..<K}"
  shows "\<exists>frames_input'. copy_input_frames S K frames i js frames_input = Inr frames_input' \<and>
           length frames_input' = length frames_input"
  using assms(4,5)
proof (induction js arbitrary: frames_input)
  case Nil
  then show ?case by simp
next
  case (Cons j js)
  have j: "j < K" using Cons.prems(2) by simp
  then have at: "at_index frames (int j) = Inr (frames ! j)"
    using assms(1) by (simp add: at_index_def)
  have "frames ! j \<in> set frames" using j assms(1) by simp
  then have len: "length (frames ! j) = kCroppedFrameDataSize S" using assms(2) by blast
  let ?out = "i * kInputDataSize S K + j * kCroppedFrameDataSize S"
  have fits: "?out + length (map float_of_uint8 (frames ! j)) \<le> length frames_input"
    using input_slot_fits [OF assms(3) j, of "kCroppedFrameDataSize S"] len Cons.prems(1)
    by (simp add: kInputDataSize_def)
  let ?next = "overwrite frames_input ?out (map float_of_uint8 (frames ! j))"
  have cp: "std_copy (map float_of_uint8 (frames ! j)) frames_input ?out = Inr ?next"
    using fits by (simp add: std_copy_def)
  have len': "length ?next = length frames_input"
    using fits by (rule length_overwrite)
  have "set js \<subseteq> {0..<K}" using Cons.prems(2) by simp
  then obtain r where r: "copy_input_frames S K frames i js ?next = Inr r"
      "length r = length ?next"
    using Cons.IH [of ?next] len' Cons.prems(1) by auto
  show ?case using at cp r len' by simp
qed

lemma target_slot_fits:
  assumes "i < M"
  shows "i * D + D \<le> M * (D::nat)"
proof -
  have "Suc i \<le> M" using assms by simp
  then have "Suc i * D \<le> M * D" by (rule mult_le_mono1)
  then show ?thesis by simp
qed

lemma assemble_row_effect:
  assumes idx: "0 \<le> idx" "idx < int (length replay_memory)"
    and wf: "well_formed S K (replay_memory ! nat idx)"
    and pa: "passes_assertions kOutputCount (replay_memory ! nat idx)"
    and i: "i < M"
    and lf: "length frames_input = M * kInputDataSize S K"
    and lt: "length target_input = M * kCroppedFrameDataSize S"
  shows "\<exists>frames_input' target_input'.
           assemble_row S K kOutputCount replay_memory i idx frames_input target_input
             = Inr (frames_input', target_input') \<and>
           length frames_input' = length frames_input \<and>
           length target_input' = length target_input \<and>
           row (kCroppedFrameDataSize S) i target_input'
             = spec_target_row S (replay_memory ! nat idx) \<and>
           (\<forall>k. k \<noteq> i \<longrightarrow> row (kCroppedFrameDataSize S) k target_input'
                              = row (kCroppedFrameDataSize S) k target_input)"
proof -
  let ?t = "replay_memory ! nat idx"
  let ?D = "kCroppedFrameDataSize S"
  let ?src = "spec_target_row S ?t"
  have at: "at_index replay_memory idx = Inr ?t" using idx by (simp add: at_index_def)
  have lsrc: "length ?src = ?D"
    using wf by (auto simp: spec_target_row_def well_formed_def split: option.splits)
  have fits: "i * ?D + ?D \<le> length target_input"
    using target_slot_fits [OF i] lt by simp
  let ?ti = "overwrite target_input (i * ?D) ?src"
  have tgt: "(case get3 ?t of
               None \<Rightarrow> std_fill target_input (i * ?D) ((i + 1) * ?D) 0
             | Some next_frame_data \<Rightarrow>
                 std_copy (map float_of_uint8 next_frame_data) target_input (i * ?D)) = Inr ?ti"
  proof (cases "get3 ?t")
    case None
    then show ?thesis using fits by (simp add: std_fill_def spec_target_row_def)
  next
    case (Some f)
    then have "length f = ?D" using wf by (simp add: well_formed_def)
    then show ?thesis using Some fits by (simp add: std_copy_def spec_target_row_def)
  qed
  obtain fi where fi: "copy_input_frames S K (get0 ?t) i [0..<K] frames_input = Inr fi"
      "length fi = length frames_input"
    using copy_input_frames_ok [of "get0 ?t" K S i M frames_input "[0..<K]"] wf i lf
    by (auto simp: well_formed_def)
  have res: "assemble_row S K kOutputCount replay_memory i idx frames_input target_input
               = Inr (fi, ?ti)"
    using at pa tgt fi(1) by (simp add: assemble_row_def passes_assertions_def)
  have "length ?ti = length target_input"
    using fits lsrc by (simp add: length_overwrite)
  moreover have "row ?D i ?ti = ?src"
    using lsrc fits by (rule row_overwrite_same)
  moreover have "\<forall>k. k \<noteq> i \<longrightarrow> row ?D k ?ti = row ?D k target_input"
  proof (intro allI impI)
    fix k assume "k \<noteq> i"
    then consider "k < i" | "i < k" by linarith
    then show "row ?D k ?ti = row ?D k target_input"
    proof cases
      case 1
      show ?thesis using lsrc fits 1 by (rule row_overwrite_below)
    next
      case 2
      show ?thesis using lsrc fits 2 by (rule row_overwrite_above)
    qed
  qed
  ultimately show ?thesis using res fi(2) by blast
qed

lemma assemble_rows_effect:
  assumes valid: "\<forall>idx \<in> set transitions. 0 \<le> idx \<and> idx < int (length replay_memory)"
    and mem: "\<forall>t \<in> set replay_memory. well_formed S K t \<and> passes_assertions kOutputCount t"
    and i: "i + length transitions \<le> M"
    and lf: "length frames_input = M * kInputDataSize S K"
    and lt: "length target_input = M * kCroppedFrameDataSize S"
  shows "\<exists>frames_input' target_input'.
           assemble_rows S K kOutputCount replay_memory i transitions frames_input target_input
             = Inr (frames_input', target_input') \<and>
           (\<forall>k < length transitions.
              row (kCroppedFrameDataSize S) (i + k) target_input'
                = spec_target_row S (replay_memory ! nat (transitions ! k))) \<and>
           (\<forall>k < i. row (kCroppedFrameDataSize S) k target_input'
                      = row (kCroppedFrameDataSize S) k target_input)"
  using valid i lf lt
proof (induction transitions arbitrary: i frames_input target_input)
  case Nil
  then show ?case by simp
next
  case (Cons idx transitions)
  let ?D = "kCroppedFrameDataSize S"
  have idx: "0 \<le> idx" "idx < int (length replay_memory)" using Cons.prems(1) by simp_all
  then have "replay_memory ! nat idx \<in> set replay_memory" by simp
  then have wf: "well_formed S K (replay_memory ! nat idx)"
    and pa: "passes_assertions kOutputCount (replay_memory ! nat idx)"
    using mem by blast+
  have iM: "i < M" using Cons.prems(2) by simp
  obtain fi1 ti1 where one:
      "assemble_row S K kOutputCount replay_memory i idx frames_input target_input
         = Inr (fi1, ti1)"
      "length fi1 = length frames_input" "length ti1 = length target_input"
      "row ?D i ti1 = spec_target_row S (replay_memory ! nat idx)"
      "\<forall>k. k \<noteq> i \<longrightarrow> row ?D k ti1 = row ?D k target_input"
    using assemble_row_effect [OF idx wf pa iM Cons.prems(3) Cons.prems(4)] by blast
  have valid': "\<forall>idx \<in> set transitions. 0 \<le> idx \<and> idx < int (length replay_memory)"
    using Cons.prems(1) by simp
  have i': "Suc i + length transitions \<le> M" using Cons.prems(2) by simp
  obtain fi2 ti2 where rest:
      "assemble_rows S K kOutputCount replay_memory (Suc i) transitions fi1 ti1
         = Inr (fi2, ti2)"
      "\<forall>k < length transitions. row ?D (Suc i + k) ti2
          = spec_target_row S (replay_memory ! nat (transitions ! k))"
      "\<forall>k < Suc i. row ?D k ti2 = row ?D k ti1"
    using Cons.IH [OF valid' i', of fi1 ti1] one(2,3) Cons.prems(3,4) by auto
  have run: "assemble_rows S K kOutputCount replay_memory i (idx # transitions)
               frames_input target_input = Inr (fi2, ti2)"
    using one(1) rest(1) by simp
  have rows: "\<forall>k < length (idx # transitions). row ?D (i + k) ti2
                = spec_target_row S (replay_memory ! nat ((idx # transitions) ! k))"
  proof (intro allI impI)
    fix k assume k: "k < length (idx # transitions)"
    show "row ?D (i + k) ti2 = spec_target_row S (replay_memory ! nat ((idx # transitions) ! k))"
    proof (cases k)
      case 0
      then show ?thesis using rest(3) one(4) by simp
    next
      case (Suc k')
      then have "k' < length transitions" using k by simp
      then show ?thesis using rest(2) Suc by simp
    qed
  qed
  have below: "\<forall>k < i. row ?D k ti2 = row ?D k target_input"
    using rest(3) one(5) by auto
  show ?case using run rows below by blast
qed

text \<open>
  Claim C4. With a non-empty memory of well-formed transitions that pass the two
  assertions, and the two arrays of the sizes the network declares, \<open>Update\<close> returns; row
  \<open>i\<close> of the target array it hands over is \<open>S \<cdot> S\<close> zeros when the transition sampled for
  row \<open>i\<close> has no next frame, and the values of its next frame, in order, otherwise.
\<close>

theorem Update_target_rows:
  assumes "within_bounds draw"
    and "replay_memory \<noteq> []"
    and "\<forall>t \<in> set replay_memory. well_formed S K t \<and> passes_assertions kOutputCount t"
    and "length frames_input = M * kInputDataSize S K"
    and "length target_input = M * kCroppedFrameDataSize S"
  shows "\<exists>transitions frames_input' target_input' g'.
           sample_transitions draw M (length replay_memory) g = Inr (transitions, g') \<and>
           Update draw S K M kOutputCount replay_memory frames_input target_input g
             = Inr ((frames_input', target_input'), g') \<and>
           (\<forall>i < M.
              case get3 (replay_memory ! nat (transitions ! i)) of
                None \<Rightarrow> row (S * S) i target_input' = replicate (S * S) 0
              | Some next_frame \<Rightarrow> row (S * S) i target_input' = map float_of_uint8 next_frame)"
proof -
  have "1 \<le> length replay_memory" using assms(2) by (cases replay_memory) simp_all
  then obtain transitions g' where smp:
      "sample_transitions draw M (length replay_memory) g = Inr (transitions, g')"
      "length transitions = M"
      "\<forall>idx \<in> set transitions. 0 \<le> idx \<and> idx < int (length replay_memory)"
    using sample_transitions_in_range [OF assms(1), of "length replay_memory" M g] by blast
  have "0 + length transitions \<le> M" using smp(2) by simp
  then obtain fi ti where asm:
      "assemble_rows S K kOutputCount replay_memory 0 transitions frames_input target_input
         = Inr (fi, ti)"
      "\<forall>k < length transitions. row (kCroppedFrameDataSize S) (0 + k) ti
          = spec_target_row S (replay_memory ! nat (transitions ! k))"
    using assemble_rows_effect [OF smp(3) assms(3) _ assms(4) assms(5), of 0] by blast
  have upd: "Update draw S K M kOutputCount replay_memory frames_input target_input g
               = Inr ((fi, ti), g')"
    using smp(1) asm(1) by (simp add: Update_def)
  have "\<forall>i < M.
          case get3 (replay_memory ! nat (transitions ! i)) of
            None \<Rightarrow> row (S * S) i ti = replicate (S * S) 0
          | Some next_frame \<Rightarrow> row (S * S) i ti = map float_of_uint8 next_frame"
  proof (intro allI impI)
    fix i assume "i < M"
    then have "row (kCroppedFrameDataSize S) i ti
                 = spec_target_row S (replay_memory ! nat (transitions ! i))"
      using asm(2) smp(2) by simp
    then show "case get3 (replay_memory ! nat (transitions ! i)) of
            None \<Rightarrow> row (S * S) i ti = replicate (S * S) 0
          | Some next_frame \<Rightarrow> row (S * S) i ti = map float_of_uint8 next_frame"
      by (simp add: spec_target_row_def kCroppedFrameDataSize_def split: option.splits)
  qed
  then show ?thesis using smp(1) upd by blast
qed

theorem Update_target_rows_witness:
  "within_bounds congruential \<and>
   Update congruential 1 1 3 18 [([[3]], 0, 0.5, None), ([[4]], 1, - 1, Some [9])]
       [0, 0, 0] [7, 7, 7] 4
     = Inr (([3, 4, 3], [0, 9, 0]), 732323329) \<and>
   sample_transitions congruential 3 2 4 = Inr ([0, 1, 0], 732323329) \<and>
   row (1 * 1) 0 [0, 9, 0 :: real] = replicate (1 * 1) 0 \<and>
   row (1 * 1) 1 [0, 9, 0 :: real] = map float_of_uint8 [9]"
proof -
  let ?mem = "[([[3]], 0, 0.5, None), ([[4]], 1, - 1, Some [9]) :: Transition]"
  have h2: "?mem \<noteq> []" by simp
  have h3: "\<forall>t \<in> set ?mem. well_formed 1 1 t \<and> passes_assertions 18 t"
    by (simp add: well_formed_def passes_assertions_def get0_def get1_def get2_def get3_def
        kCroppedFrameDataSize_def)
  have h4: "length [0, 0, 0 :: real] = 3 * kInputDataSize 1 1"
    by (simp add: kInputDataSize_def kCroppedFrameDataSize_def)
  have h5: "length [7, 7, 7 :: real] = 3 * kCroppedFrameDataSize 1"
    by (simp add: kCroppedFrameDataSize_def)
  have smp: "sample_transitions congruential 3 2 4 = Inr ([0, 1, 0], 732323329)"
    by code_simp
  have upd: "Update congruential 1 1 3 18 ?mem [0, 0, 0] [7, 7, 7] 4
               = Inr (([3, 4, 3], [0, 9, 0]), 732323329)"
    by code_simp
  have rows: "row (1 * 1) 0 [0, 9, 0 :: real] = replicate (1 * 1) 0"
    "row (1 * 1) 1 [0, 9, 0 :: real] = map float_of_uint8 [9]"
    by (simp_all add: row_def float_of_uint8_def)
  show ?thesis
    using congruential_within_bounds smp upd rows
      Update_target_rows [OF congruential_within_bounds h2 h3 h4 h5, of 4]
    by simp
qed

section \<open>Properties of the rounding\<close>

lemma exponent_bounds:
  assumes "x \<noteq> 0"
  shows "2 powi exponent x \<le> \<bar>x\<bar>" and "\<bar>x\<bar> < 2 powi (exponent x + 1)"
proof -
  have "2 powi exponent x \<le> \<bar>x\<bar> \<and> \<bar>x\<bar> < 2 powi (exponent x + 1)"
  proof (cases "1 \<le> \<bar>x\<bar>")
    case True
    define n where "n = \<lfloor>\<bar>x\<bar>\<rfloor>"
    have n: "0 < n" using True by (simp add: n_def)
    have e: "exponent x = bitlen n - 1" using True by (simp add: exponent_def n_def)
    have b1: "1 \<le> bitlen n" using n by (simp add: bitlen_def floorlog_def)
    from bitlen_bounds [OF n] have lo: "2 ^ nat (bitlen n - 1) \<le> n" and hi: "n < 2 ^ nat (bitlen n)"
      by simp_all
    have "(2::real) powi (bitlen n - 1) = 2 ^ nat (bitlen n - 1)"
      using b1 by (simp add: power_int_def)
    also have "\<dots> = of_int (2 ^ nat (bitlen n - 1))" by simp
    also have "\<dots> \<le> of_int n" using lo by (simp only: of_int_le_iff)
    also have "\<dots> \<le> \<bar>x\<bar>" by (simp add: n_def)
    finally have A: "2 powi exponent x \<le> \<bar>x\<bar>" by (simp add: e)
    have "n + 1 \<le> 2 ^ nat (bitlen n)" using hi by simp
    then have "real_of_int (n + 1) \<le> of_int (2 ^ nat (bitlen n))" by (simp only: of_int_le_iff)
    moreover have "\<bar>x\<bar> < of_int (n + 1)" unfolding n_def by linarith
    ultimately have "\<bar>x\<bar> < (2::real) ^ nat (bitlen n)" by simp
    also have "\<dots> = 2 powi (bitlen n)" using b1 by (simp add: power_int_def)
    finally have B: "\<bar>x\<bar> < 2 powi (exponent x + 1)" by (simp add: e)
    show ?thesis using A B by simp
  next
    case False
    then have small: "\<bar>x\<bar> < 1" by simp
    have pos: "0 < \<bar>x\<bar>" using assms by simp
    define y where "y = 1 / \<bar>x\<bar>"
    have y1: "1 < y" using small pos by (simp add: y_def)
    define m where "m = \<lceil>y\<rceil> - 1"
    have m: "0 < m" using y1 unfolding m_def by linarith
    have e: "exponent x = - bitlen m" using False by (simp add: exponent_def m_def y_def)
    have b1: "1 \<le> bitlen m" using m by (simp add: bitlen_def floorlog_def)
    from bitlen_bounds [OF m] have lo: "2 ^ nat (bitlen m - 1) \<le> m" and hi: "m < 2 ^ nat (bitlen m)"
      by simp_all
    have ym: "real_of_int m < y" "y \<le> of_int (m + 1)" unfolding m_def by linarith+
    have "m + 1 \<le> 2 ^ nat (bitlen m)" using hi by simp
    then have "real_of_int (m + 1) \<le> of_int (2 ^ nat (bitlen m))" by (simp only: of_int_le_iff)
    then have yhi: "y \<le> 2 ^ nat (bitlen m)" using ym(2) by simp
    have "real_of_int (2 ^ nat (bitlen m - 1)) \<le> of_int m" using lo by (simp only: of_int_le_iff)
    then have "(2::real) ^ nat (bitlen m - 1) \<le> of_int m" by simp
    then have ylo: "2 ^ nat (bitlen m - 1) < y" using ym(1) by linarith
    have x_eq: "\<bar>x\<bar> = 1 / y" using pos by (simp add: y_def)
    have ypos: "0 < y" using y1 by simp
    have "(2::real) powi (- bitlen m) = 1 / 2 ^ nat (bitlen m)"
      using b1 by (simp add: power_int_def field_simps)
    also have "\<dots> \<le> 1 / y" using yhi ypos by (simp add: frac_le)
    finally have A: "2 powi exponent x \<le> \<bar>x\<bar>" by (simp add: e x_eq)
    have "1 / y < 1 / 2 ^ nat (bitlen m - 1)"
      using ylo by (simp add: frac_less2)
    also have "\<dots> = (2::real) powi (- bitlen m + 1)"
    proof (cases "bitlen m = 1")
      case True
      then show ?thesis by simp
    next
      case False
      then have "- bitlen m + 1 < 0" using b1 by simp
      moreover have "nat (- (- bitlen m + 1)) = nat (bitlen m - 1)" by simp
      ultimately show ?thesis by (simp add: power_int_def field_simps)
    qed
    finally have B: "\<bar>x\<bar> < 2 powi (exponent x + 1)" by (simp add: e x_eq)
    show ?thesis using A B by simp
  qed
  then show "2 powi exponent x \<le> \<bar>x\<bar>" and "\<bar>x\<bar> < 2 powi (exponent x + 1)" by simp_all
qed

lemma round_half_even_error: "\<bar>of_int (round_half_even y) - y\<bar> \<le> 1 / 2"
  unfolding round_half_even_def Let_def by (auto; linarith)

lemma round_half_even_le: "y \<le> of_int n \<Longrightarrow> round_half_even y \<le> n"
  unfolding round_half_even_def Let_def by (auto; linarith)

lemma round_half_even_ge: "of_int n \<le> y \<Longrightarrow> n \<le> round_half_even y"
  unfolding round_half_even_def Let_def by (auto; linarith)


lemma round_to_unfold:
  assumes "x \<noteq> 0"
  shows "round_to p x
           = of_int (round_half_even (x / 2 powi (exponent x - int p + 1)))
               * 2 powi (exponent x - int p + 1)"
  using assms by (simp add: round_to_def Let_def)

lemma round_to_error: "\<bar>round_to p x - x\<bar> \<le> \<bar>x\<bar> / 2 ^ p"
proof (cases "x = 0")
  case True
  then show ?thesis by (simp add: round_to_def)
next
  case False
  define u :: real where "u = 2 powi (exponent x - int p + 1)"
  define r :: real where "r = of_int (round_half_even (x / u))"
  have u: "0 < u" by (simp add: u_def)
  have rt: "round_to p x = r * u"
    using False by (simp add: round_to_unfold u_def r_def)
  have "\<bar>r - x / u\<bar> \<le> 1 / 2"
    unfolding r_def by (rule round_half_even_error)
  then have "\<bar>r - x / u\<bar> * u \<le> 1 / 2 * u"
    using u by (simp only: mult_le_cancel_right_pos)
  moreover have "\<bar>r - x / u\<bar> * u = \<bar>r * u - x\<bar>"
  proof -
    have "\<bar>r - x / u\<bar> * u = \<bar>(r - x / u) * u\<bar>"
      using u by (simp add: abs_mult)
    also have "(r - x / u) * u = r * u - x"
      using u by (simp add: field_simps)
    finally show ?thesis .
  qed
  ultimately have err: "\<bar>round_to p x - x\<bar> \<le> u / 2"
    by (simp add: rt)
  have "exponent x - int p + 1 = exponent x + (1 - int p)" by simp
  then have "u = 2 powi (exponent x + (1 - int p))" unfolding u_def by (simp only:)
  also have "\<dots> = 2 powi exponent x * 2 powi (1 - int p)"
    by (simp add: power_int_add)
  finally have "u = 2 powi exponent x * 2 powi (1 - int p)" .
  also have "(2::real) powi (1 - int p) = 2 / 2 ^ p"
    by (simp add: power_int_diff)
  finally have "u / 2 = 2 powi exponent x / 2 ^ p" by simp
  also have "\<dots> \<le> \<bar>x\<bar> / 2 ^ p"
    using exponent_bounds(1) [OF False] by (simp add: divide_right_mono)
  finally show ?thesis using err by linarith
qed

lemma exponent_less:
  assumes "x \<noteq> 0" and "\<bar>x\<bar> < 2 ^ p"
  shows "exponent x < int p"
proof (rule ccontr)
  assume "\<not> exponent x < int p"
  then have "int p \<le> exponent x" by simp
  then have "(2::real) powi int p \<le> 2 powi exponent x"
    by (rule power_int_increasing) simp
  moreover have "(2::real) powi int p = 2 ^ p" by (rule power_int_of_nat)
  ultimately have "(2::real) ^ p \<le> \<bar>x\<bar>"
    using exponent_bounds(1) [OF assms(1)] by linarith
  then show False using assms(2) by simp
qed

lemma round_to_scaled:
  assumes "x \<noteq> 0" and "\<bar>x\<bar> < 2 ^ p"
  shows "round_to p x
           = of_int (round_half_even (x * 2 ^ nat (int p - 1 - exponent x)))
               / 2 ^ nat (int p - 1 - exponent x)"
proof -
  define k where "k = nat (int p - 1 - exponent x)"
  have "exponent x < int p" using assms by (rule exponent_less)
  then have "exponent x - int p + 1 = - int k" by (simp add: k_def)
  then have "(2::real) powi (exponent x - int p + 1) = 2 powi (- int k)" by (simp only:)
  also have "\<dots> = inverse (2 powi int k)" by (rule power_int_minus)
  also have "\<dots> = 1 / 2 ^ k" by (simp add: inverse_eq_divide)
  finally have "(2::real) powi (exponent x - int p + 1) = 1 / 2 ^ k" .
  then show ?thesis using assms(1) by (simp add: round_to_unfold k_def)
qed

lemma round_to_le_int:
  assumes "x \<le> of_int n" and "\<bar>x\<bar> < 2 ^ p"
  shows "round_to p x \<le> of_int n"
proof (cases "x = 0")
  case True
  then show ?thesis using assms(1) by (simp add: round_to_def)
next
  case False
  define k where "k = nat (int p - 1 - exponent x)"
  have "x * 2 ^ k \<le> of_int n * 2 ^ k" using assms(1) by simp
  also have "\<dots> = of_int (n * 2 ^ k)" by simp
  finally have "round_half_even (x * 2 ^ k) \<le> n * 2 ^ k" by (rule round_half_even_le)
  then have "real_of_int (round_half_even (x * 2 ^ k)) \<le> of_int (n * 2 ^ k)"
    by (simp only: of_int_le_iff)
  then have "real_of_int (round_half_even (x * 2 ^ k)) / 2 ^ k \<le> of_int n"
    by (simp add: field_simps)
  then show ?thesis using round_to_scaled [OF False assms(2)] by (simp add: k_def)
qed

lemma round_to_ge_int:
  assumes "of_int n \<le> x" and "\<bar>x\<bar> < 2 ^ p"
  shows "of_int n \<le> round_to p x"
proof (cases "x = 0")
  case True
  then show ?thesis using assms(1) by (simp add: round_to_def)
next
  case False
  define k where "k = nat (int p - 1 - exponent x)"
  have "of_int (n * 2 ^ k) = of_int n * (2::real) ^ k" by simp
  also have "\<dots> \<le> x * 2 ^ k" using assms(1) by simp
  finally have "n * 2 ^ k \<le> round_half_even (x * 2 ^ k)" by (rule round_half_even_ge)
  then have "real_of_int (n * 2 ^ k) \<le> of_int (round_half_even (x * 2 ^ k))"
    by (simp only: of_int_le_iff)
  then have "of_int n \<le> real_of_int (round_half_even (x * 2 ^ k)) / 2 ^ k"
    by (simp add: field_simps)
  then show ?thesis using round_to_scaled [OF False assms(2)] by (simp add: k_def)
qed

lemma round_to_nonneg:
  assumes "0 \<le> x"
  shows "0 \<le> round_to p x"
proof (cases "x = 0")
  case True
  then show ?thesis by (simp add: round_to_def)
next
  case False
  have "0 \<le> x / 2 powi (exponent x - int p + 1)" using assms by simp
  then have "of_int 0 \<le> x / 2 powi (exponent x - int p + 1)" by simp
  then have "0 \<le> round_half_even (x / 2 powi (exponent x - int p + 1))"
    by (rule round_half_even_ge)
  then show ?thesis using False by (simp add: round_to_unfold)
qed

text \<open>The same facts for the two formats.\<close>

lemma to_double_error: "\<bar>to_double v - v\<bar> \<le> \<bar>v\<bar> / 2 ^ 53"
  unfolding to_double_def by (rule round_to_error)

lemma to_float_error: "\<bar>to_float v - v\<bar> \<le> \<bar>v\<bar> / 2 ^ 24"
  unfolding to_float_def by (rule round_to_error)

lemma to_double_relative:
  assumes "0 \<le> v"
  shows "\<bar>to_double v - v\<bar> \<le> (1 / 2 ^ 53) * v"
proof -
  have "\<bar>v\<bar> = v" using assms by simp
  then show ?thesis using to_double_error [of v] by simp
qed

lemma to_double_upper:
  assumes "0 \<le> v"
  shows "to_double v \<le> (1 + 1 / 2 ^ 53) * v"
proof -
  have "\<bar>v\<bar> = v" using assms by simp
  then have "\<bar>to_double v - v\<bar> \<le> v / 2 ^ 53" using to_double_error [of v] by simp
  then have "to_double v \<le> v + v / 2 ^ 53" by linarith
  then show ?thesis by (simp add: algebra_simps)
qed

lemma to_double_lower:
  assumes "0 \<le> v"
  shows "(1 - 1 / 2 ^ 53) * v \<le> to_double v"
proof -
  have "\<bar>v\<bar> = v" using assms by simp
  then have "\<bar>to_double v - v\<bar> \<le> v / 2 ^ 53" using to_double_error [of v] by simp
  then have "v - v / 2 ^ 53 \<le> to_double v" by linarith
  then show ?thesis by (simp add: algebra_simps)
qed

lemma to_double_nonneg: "0 \<le> v \<Longrightarrow> 0 \<le> to_double v"
  unfolding to_double_def by (rule round_to_nonneg)

lemma to_float_nonneg: "0 \<le> v \<Longrightarrow> 0 \<le> to_float v"
  unfolding to_float_def by (rule round_to_nonneg)

lemma to_double_between_ints:
  assumes "of_int lo \<le> v" and "v \<le> of_int hi" and "\<bar>v\<bar> < 2 ^ 53"
  shows "of_int lo \<le> to_double v \<and> to_double v \<le> of_int hi"
  unfolding to_double_def
  using round_to_ge_int [OF assms(1) assms(3)] round_to_le_int [OF assms(2) assms(3)] by simp

lemma to_double_unit:
  assumes "0 \<le> v" and "v \<le> 1"
  shows "0 \<le> to_double v \<and> to_double v \<le> 1"
proof -
  have "\<bar>v\<bar> < 2 ^ 53" using assms by simp
  then show ?thesis using to_double_between_ints [of 0 v 1] assms by simp
qed

lemma to_double_int:
  assumes "\<bar>real_of_int n\<bar> < 2 ^ 53"
  shows "to_double (of_int n) = of_int n"
  using to_double_between_ints [of n "of_int n" n] assms by simp

text \<open>Rules that evaluate the arithmetic on numerals.\<close>

lemmas float_eval = round_to_def exponent_def round_half_even_def Let_def to_double_def
  to_float_def dadd_def dsub_def dmul_def ddiv_def fdiv_def compute_bitlen power_int_def
  static_cast_int_def power_one_over inverse_eq_divide

section \<open>Properties of the grayscale conversion\<close>

text \<open>
  Claim C7, on the code. The three products and the two sums of \<open>RGBToGrayscale\<close> are rounded
  to \<^verbatim>\<open>double\<close>: for the white triple the sum is the double just below 255, and the conversion
  to \<^verbatim>\<open>uint8_t\<close> drops its fraction, so white maps to 254 (not to 255). Black maps to 0.
\<close>

theorem RGBToGrayscale_white_and_black:
  "RGBToGrayscale (255, 255, 255) = Inr 254 \<and>
   dadd (dadd (dmul 255 (to_double 0.21)) (dmul 255 (to_double 0.72))) (dmul 255 (to_double 0.07))
     = 255 - 1 / 2 ^ 45 \<and>
   RGBToGrayscale (0, 0, 0) = Inr 0"
  by (simp add: RGBToGrayscale_def double_to_uint8_def float_eval)

section \<open>Properties of the resampling weights\<close>

lemma first_weight_unit:
  assumes "\<bar>real_of_int b\<bar> + 1 < 2 ^ 53"
  shows "0 \<le> dsub (dsub (of_int (b + \<lfloor>p\<rfloor> + 1)) p) (of_int b) \<and>
         dsub (dsub (of_int (b + \<lfloor>p\<rfloor> + 1)) p) (of_int b) \<le> 1"
proof -
  define a where "a = real_of_int (b + \<lfloor>p\<rfloor> + 1) - p"
  have lo: "of_int b \<le> a" and hi: "a \<le> of_int (b + 1)"
    unfolding a_def by (simp; linarith)+
  have "\<bar>a\<bar> \<le> \<bar>real_of_int b\<bar> + 1" using lo hi by simp
  then have small: "\<bar>a\<bar> < 2 ^ 53" using assms by linarith
  have "of_int b \<le> to_double a \<and> to_double a \<le> of_int (b + 1)"
    using lo hi small by (rule to_double_between_ints)
  then have "0 \<le> to_double a - of_int b" and "to_double a - of_int b \<le> 1" by simp_all
  then show ?thesis
    unfolding dsub_def a_def [symmetric] by (rule to_double_unit)
qed

lemma last_weight_unit:
  assumes "\<bar>real_of_int b\<bar> + 1 < 2 ^ 53"
  shows "0 \<le> dadd (dsub p (of_int (b + \<lfloor>p\<rfloor>))) (of_int b) \<and>
         dadd (dsub p (of_int (b + \<lfloor>p\<rfloor>))) (of_int b) \<le> 1"
proof -
  define a where "a = p - real_of_int (b + \<lfloor>p\<rfloor>)"
  have lo: "of_int (- b) \<le> a" and hi: "a \<le> of_int (1 - b)"
    unfolding a_def by (simp; linarith)+
  have "\<bar>a\<bar> \<le> \<bar>real_of_int b\<bar> + 1" using lo hi by simp
  then have small: "\<bar>a\<bar> < 2 ^ 53" using assms by linarith
  have "of_int (- b) \<le> to_double a \<and> to_double a \<le> of_int (1 - b)"
    using lo hi small by (rule to_double_between_ints)
  then have "0 \<le> to_double a + of_int b" and "to_double a + of_int b \<le> 1" by simp_all
  then show ?thesis
    unfolding dadd_def dsub_def a_def [symmetric] by (rule to_double_unit)
qed

lemma x_weight_unit:
  "0 \<le> x_ratio_in_resulting_pixel S W j x \<and> x_ratio_in_resulting_pixel S W j x \<le> 1"
proof -
  have b: "\<bar>real_of_int start_x\<bar> + 1 < 2 ^ 53" by (simp add: start_x_def)
  consider "x = first_x S W j" | "x \<noteq> first_x S W j" "x = last_x S W j"
    | "x \<noteq> first_x S W j" "x \<noteq> last_x S W j" by blast
  then show ?thesis
  proof cases
    case 1
    define p where "p = dmul (of_int j) (x_ratio S W)"
    have "x + 1 = start_x + \<lfloor>p\<rfloor> + 1" using 1 by (simp add: first_x_def p_def)
    then have "x_ratio_in_resulting_pixel S W j x
                 = dsub (dsub (of_int (start_x + \<lfloor>p\<rfloor> + 1)) p) (of_int start_x)"
      using 1 by (simp add: x_ratio_in_resulting_pixel_def p_def)
    then show ?thesis using first_weight_unit [OF b, of p] by simp
  next
    case 2
    define p where "p = dmul (of_int (j + 1)) (x_ratio S W)"
    have comm: "dmul (x_ratio S W) (of_int (j + 1)) = p"
      by (simp add: dmul_def p_def mult.commute)
    have "x = start_x + \<lfloor>p\<rfloor>" using 2 by (simp add: last_x_def p_def)
    then have "x_ratio_in_resulting_pixel S W j x
                 = dadd (dsub p (of_int (start_x + \<lfloor>p\<rfloor>))) (of_int start_x)"
      using 2 comm by (simp add: x_ratio_in_resulting_pixel_def)
    then show ?thesis using last_weight_unit [OF b, of p] by simp
  next
    case 3
    then show ?thesis by (simp add: x_ratio_in_resulting_pixel_def)
  qed
qed

lemma y_weight_unit:
  assumes "\<bar>real_of_int (start_y H)\<bar> + 1 < 2 ^ 53"
  shows "0 \<le> y_ratio_in_resulting_pixel S H i y \<and> y_ratio_in_resulting_pixel S H i y \<le> 1"
proof -
  consider "y = first_y S H i" | "y \<noteq> first_y S H i" "y = last_y S H i"
    | "y \<noteq> first_y S H i" "y \<noteq> last_y S H i" by blast
  then show ?thesis
  proof cases
    case 1
    define p where "p = dmul (of_int i) (y_ratio S H)"
    have "y + 1 = start_y H + \<lfloor>p\<rfloor> + 1" using 1 by (simp add: first_y_def p_def)
    then have "y_ratio_in_resulting_pixel S H i y
                 = dsub (dsub (of_int (start_y H + \<lfloor>p\<rfloor> + 1)) p) (of_int (start_y H))"
      using 1 by (simp add: y_ratio_in_resulting_pixel_def p_def)
    then show ?thesis using first_weight_unit [OF assms, of p] by simp
  next
    case 2
    define p where "p = dmul (of_int (i + 1)) (y_ratio S H)"
    have comm: "dmul (y_ratio S H) (of_int (i + 1)) = p"
      by (simp add: dmul_def p_def mult.commute)
    have "y = start_y H + \<lfloor>p\<rfloor>" using 2 by (simp add: last_y_def p_def)
    then have "y_ratio_in_resulting_pixel S H i y
                 = dadd (dsub p (of_int (start_y H + \<lfloor>p\<rfloor>))) (of_int (start_y H))"
      using 2 comm by (simp add: y_ratio_in_resulting_pixel_def)
    then show ?thesis using last_weight_unit [OF assms, of p] by simp
  next
    case 3
    then show ?thesis by (simp add: y_ratio_in_resulting_pixel_def)
  qed
qed


lemma to_double_092: "to_double 0.92 = 8286623314361713 / 9007199254740992"
  by (simp add: float_eval)

lemma cropped_screen_height_bounds:
  assumes "0 \<le> H"
  shows "0 \<le> cropped_screen_height H"
    and "real_of_int (cropped_screen_height H) \<le> (23 / 25 + 1 / 10 ^ 9) * of_int H"
proof -
  define v where "v = to_double 0.92 * real_of_int H"
  have v_eq: "v = 8286623314361713 / 9007199254740992 * real_of_int H"
    unfolding v_def to_double_092 ..
  have v0: "0 \<le> v" using assms by (simp add: v_eq)
  have d0: "0 \<le> to_double v" using v0 by (rule to_double_nonneg)
  have ch: "cropped_screen_height H = \<lfloor>to_double v\<rfloor>"
    using d0 by (simp add: cropped_screen_height_def dmul_def static_cast_int_def v_def)
  show "0 \<le> cropped_screen_height H" using d0 by (simp add: ch)
  have "\<bar>to_double v - v\<bar> \<le> v / 2 ^ 53" using to_double_error [of v] v0 by simp
  then have "to_double v \<le> v + v / 2 ^ 53" by linarith
  also have "\<dots> = (8286623314361713 / 9007199254740992 * (1 + 1 / 2 ^ 53)) * real_of_int H"
    by (simp add: v_eq algebra_simps)
  also have "\<dots> \<le> (23 / 25 + 1 / 10 ^ 9) * real_of_int H"
    using assms by (intro mult_right_mono) simp_all
  finally have "to_double v \<le> (23 / 25 + 1 / 10 ^ 9) * real_of_int H" .
  moreover have "real_of_int \<lfloor>to_double v\<rfloor> \<le> to_double v" by simp
  ultimately show "real_of_int (cropped_screen_height H) \<le> (23 / 25 + 1 / 10 ^ 9) * of_int H"
    unfolding ch by linarith
qed

lemma cropped_screen_height_le:
  assumes "0 \<le> H"
  shows "cropped_screen_height H \<le> H"
proof -
  have "(23 / 25 + 1 / 10 ^ 9) * real_of_int H \<le> 1 * real_of_int H"
    using assms by (intro mult_right_mono) simp_all
  then have "real_of_int (cropped_screen_height H) \<le> real_of_int H"
    using cropped_screen_height_bounds(2) [OF assms] by simp
  then show ?thesis by simp
qed

lemma start_y_bounds:
  assumes "0 \<le> H"
  shows "0 \<le> start_y H"
    and "real_of_int (start_y H)
           \<le> (1 / 2 + 1 / 10 ^ 6) * real_of_int (H - cropped_screen_height H)"
proof -
  define h where "h = H - cropped_screen_height H"
  define f1 where "f1 = to_float (real_of_int h)"
  define f2 where "f2 = to_float (f1 / 2)"
  have h0: "0 \<le> h" using cropped_screen_height_le [OF assms] by (simp add: h_def)
  have f10: "0 \<le> f1" unfolding f1_def using h0 by (intro to_float_nonneg) simp
  have f20: "0 \<le> f2" unfolding f2_def using f10 by (intro to_float_nonneg) simp
  have sy: "start_y H = \<lfloor>f2\<rfloor>"
    using f20 by (simp add: start_y_def fdiv_def static_cast_int_def f2_def f1_def h_def)
  show "0 \<le> start_y H" using f20 by (simp add: sy)
  have "\<bar>real_of_int h\<bar> = real_of_int h" using h0 by simp
  then have "\<bar>f1 - real_of_int h\<bar> \<le> real_of_int h / 2 ^ 24"
    using to_float_error [of "real_of_int h"] by (simp only: f1_def)
  then have "f1 \<le> real_of_int h + real_of_int h / 2 ^ 24" by linarith
  then have a: "f1 \<le> (1 + 1 / 2 ^ 24) * real_of_int h" by (simp add: algebra_simps)
  have "\<bar>f1 / 2\<bar> = f1 / 2" using f10 by simp
  then have "\<bar>f2 - f1 / 2\<bar> \<le> (f1 / 2) / 2 ^ 24"
    using to_float_error [of "f1 / 2"] by (simp only: f2_def)
  then have "f2 \<le> f1 / 2 + (f1 / 2) / 2 ^ 24" by linarith
  then have "f2 \<le> ((1 + 1 / 2 ^ 24) / 2) * f1" by (simp add: algebra_simps)
  also have "\<dots> \<le> ((1 + 1 / 2 ^ 24) / 2) * ((1 + 1 / 2 ^ 24) * real_of_int h)"
    using a by (intro mult_left_mono) simp_all
  also have "\<dots> = ((1 + 1 / 2 ^ 24) / 2 * (1 + 1 / 2 ^ 24)) * real_of_int h" by simp
  also have "\<dots> \<le> (1 / 2 + 1 / 10 ^ 6) * real_of_int h"
    using h0 by (intro mult_right_mono) simp_all
  finally have "f2 \<le> (1 / 2 + 1 / 10 ^ 6) * real_of_int h" .
  moreover have "real_of_int \<lfloor>f2\<rfloor> \<le> f2" by simp
  ultimately show "real_of_int (start_y H)
           \<le> (1 / 2 + 1 / 10 ^ 6) * real_of_int (H - cropped_screen_height H)"
    unfolding sy h_def by linarith
qed

lemma start_y_le:
  assumes "0 \<le> H"
  shows "start_y H \<le> H"
proof -
  have h0: "0 \<le> H - cropped_screen_height H"
    using cropped_screen_height_le [OF assms] by simp
  have hH: "H - cropped_screen_height H \<le> H"
    using cropped_screen_height_bounds(1) [OF assms] by simp
  have "(1 / 2 + 1 / 10 ^ 6) * real_of_int (H - cropped_screen_height H)
          \<le> 1 * real_of_int (H - cropped_screen_height H)"
    using h0 by (intro mult_right_mono) simp_all
  also have "\<dots> \<le> real_of_int H" using hH by simp
  finally have "real_of_int (start_y H) \<le> real_of_int H"
    using start_y_bounds(2) [OF assms] by linarith
  then show ?thesis by simp
qed

lemma start_y_small:
  assumes "0 \<le> H" and "H < 2 ^ 31"
  shows "\<bar>real_of_int (start_y H)\<bar> + 1 < 2 ^ 53"
proof -
  have "0 \<le> start_y H" "start_y H \<le> H"
    using start_y_bounds(1) [OF assms(1)] start_y_le [OF assms(1)] by simp_all
  then have "0 \<le> real_of_int (start_y H)" "real_of_int (start_y H) < 2 ^ 31"
    using assms(2) by simp_all
  then show ?thesis by simp
qed


lemma RGBToGrayscale_failures:
  assumes "RGBToGrayscale rgb = Inl e"
  shows "e = Assertion_failed Rgb_range \<or> e = Undefined_behaviour Float_to_uint8"
  using assms
  by (cases rgb) (auto simp: RGBToGrayscale_def double_to_uint8_def Let_def split: if_splits)

lemma add_to_color_failures:
  assumes "add_to_color S W H i j x y g c = Inl e"
  shows "e = Undefined_behaviour Float_to_uint8"
  using assms by (auto simp: add_to_color_def double_to_uint8_def Let_def split: if_splits)

lemma y_loop_failures:
  assumes unit: "\<And>y. 0 \<le> y_ratio_in_resulting_pixel S (height raw_screen) i y \<and>
                     y_ratio_in_resulting_pixel S (height raw_screen) i y \<le> 1"
    and "y_loop S raw_screen i j x ys c = Inl e"
  shows "e \<noteq> Assertion_failed X_weight_range \<and> e \<noteq> Assertion_failed Y_weight_range"
  using assms(2)
proof (induction ys arbitrary: c)
  case Nil
  then show ?case by simp
next
  case (Cons y ys)
  show ?case
  proof (cases "at_index (getArray raw_screen) (y * width raw_screen + x)")
    case (Inl e1)
    then have "e = e1" using Cons.prems unit by (simp add: Let_def)
    then show ?thesis using at_index_failures [OF Inl] by simp
  next
    case pixel: (Inr pixel)
    show ?thesis
    proof (cases "PixelToGrayscale pixel")
      case (Inl e1)
      then have "e = e1" using Cons.prems unit pixel by (simp add: Let_def)
      then show ?thesis
        using RGBToGrayscale_failures [of "PixelToRGB pixel" e1] Inl
        by (auto simp: PixelToGrayscale_def)
    next
      case gray: (Inr grayscale)
      show ?thesis
      proof (cases "add_to_color S (width raw_screen) (height raw_screen) i j x y grayscale c")
        case (Inl e1)
        then have "e = e1" using Cons.prems unit pixel gray by (simp add: Let_def)
        then show ?thesis using add_to_color_failures [OF Inl] by simp
      next
        case (Inr c')
        then have "y_loop S raw_screen i j x ys c' = Inl e"
          using Cons.prems unit pixel gray by (simp add: Let_def)
        then show ?thesis by (rule Cons.IH)
      qed
    qed
  qed
qed

lemma x_loop_failures:
  assumes unit: "\<And>y. 0 \<le> y_ratio_in_resulting_pixel S (height raw_screen) i y \<and>
                     y_ratio_in_resulting_pixel S (height raw_screen) i y \<le> 1"
    and "x_loop S raw_screen i j xs c = Inl e"
  shows "e \<noteq> Assertion_failed X_weight_range \<and> e \<noteq> Assertion_failed Y_weight_range"
  using assms(2)
proof (induction xs arbitrary: c)
  case Nil
  then show ?case by simp
next
  case (Cons x xs)
  let ?ys = "[first_y S (height raw_screen) i..last_y S (height raw_screen) i]"
  show ?case
  proof (cases "y_loop S raw_screen i j x ?ys c")
    case (Inl e1)
    then have "e = e1" using Cons.prems x_weight_unit [of S "width raw_screen" j x]
      by (simp add: Let_def)
    then show ?thesis using y_loop_failures [OF unit Inl] by simp
  next
    case (Inr c')
    then have "x_loop S raw_screen i j xs c' = Inl e"
      using Cons.prems x_weight_unit [of S "width raw_screen" j x] by (simp add: Let_def)
    then show ?thesis by (rule Cons.IH)
  qed
qed

lemma collect_failure:
  assumes "collect rs = Inl e"
  shows "Inl e \<in> set rs"
  using assms by (induction rs) (auto split: sum.splits)

text \<open>
  Claim C6. For every raw screen with \<open>H > W\<close> (its sides C \<^verbatim>\<open>int\<close> values, the width not
  negative), every weight \<^verbatim>\<open>x_ratio_in_resulting_pixel\<close> and \<^verbatim>\<open>y_ratio_in_resulting_pixel\<close>
  the loops compute, for the first, the last and the inner pixels, lies in \<open>[0, 1]\<close> in
  \<^verbatim>\<open>double\<close> arithmetic, so neither assertion on a weight ever fails, in any cell and in the
  whole run of \<open>PreprocessScreen\<close>.
\<close>

theorem weights_within_unit_interval:
  assumes "0 \<le> width raw_screen"
    and "width raw_screen < height raw_screen"
    and "height raw_screen < 2 ^ 31"
  shows "0 \<le> x_ratio_in_resulting_pixel S (width raw_screen) j x \<and>
         x_ratio_in_resulting_pixel S (width raw_screen) j x \<le> 1 \<and>
         0 \<le> y_ratio_in_resulting_pixel S (height raw_screen) i y \<and>
         y_ratio_in_resulting_pixel S (height raw_screen) i y \<le> 1 \<and>
         resulting_pixel S raw_screen i j \<noteq> Inl (Assertion_failed X_weight_range) \<and>
         resulting_pixel S raw_screen i j \<noteq> Inl (Assertion_failed Y_weight_range) \<and>
         PreprocessScreen S raw_screen \<noteq> Inl (Assertion_failed X_weight_range) \<and>
         PreprocessScreen S raw_screen \<noteq> Inl (Assertion_failed Y_weight_range)"
proof -
  have H0: "0 \<le> height raw_screen" using assms(1,2) by simp
  have small: "\<bar>real_of_int (start_y (height raw_screen))\<bar> + 1 < 2 ^ 53"
    using H0 assms(3) by (rule start_y_small)
  have yu: "\<And>i y. 0 \<le> y_ratio_in_resulting_pixel S (height raw_screen) i y \<and>
                   y_ratio_in_resulting_pixel S (height raw_screen) i y \<le> 1"
    using small by (rule y_weight_unit)
  have cell: "e \<noteq> Assertion_failed X_weight_range \<and> e \<noteq> Assertion_failed Y_weight_range"
    if "resulting_pixel S raw_screen i j = Inl e" for i j e
    using that x_loop_failures [OF yu] unfolding resulting_pixel_def by blast
  have whole: "e \<noteq> Assertion_failed X_weight_range \<and> e \<noteq> Assertion_failed Y_weight_range"
    if run: "PreprocessScreen S raw_screen = Inl e" for e
  proof -
    have "collect (map (\<lambda>(i, j). resulting_pixel S raw_screen i j)
                     (List.product [0..S - 1] [0..S - 1])) = Inl e"
      using run assms(2) by (simp add: PreprocessScreen_def)
    then have "Inl e \<in> set (map (\<lambda>(i, j). resulting_pixel S raw_screen i j)
                     (List.product [0..S - 1] [0..S - 1]))"
      by (rule collect_failure)
    then obtain i j where "resulting_pixel S raw_screen i j = Inl e" by auto
    then show ?thesis by (rule cell)
  qed
  show ?thesis
    using x_weight_unit [of S "width raw_screen" j x] yu [of i y] cell [of i j] whole
    by blast
qed

section \<open>The emulator's screen: 160 by 210, one palette index throughout\<close>

lemma atari_ratios:
  "x_ratio 84 160 = 8149370754289469 / 4503599627370496"
  "cropped_screen_height 210 = 193"
  "y_ratio 84 210 = 646722267918531 / 281474976710656"
proof -
  show "x_ratio 84 160 = 8149370754289469 / 4503599627370496"
    by (simp add: x_ratio_def cropped_screen_width_def start_x_def float_eval)
  show ch: "cropped_screen_height 210 = 193"
    by (simp add: cropped_screen_height_def float_eval)
  show "y_ratio 84 210 = 646722267918531 / 281474976710656"
    by (simp add: y_ratio_def ch float_eval)
qed

lemma atari_start_y: "start_y 210 = 8"
  by (simp add: start_y_def atari_ratios float_eval)

lemma atari_cell_0_0:
  "first_x 84 160 0 = 8" "last_x 84 160 0 = 9" "first_y 84 210 0 = 8" "last_y 84 210 0 = 10"
  by (simp_all add: first_x_def last_x_def first_y_def last_y_def start_x_def atari_start_y
      atari_ratios float_eval)

lemma atari_x_weights:
  "x_ratio_in_resulting_pixel 84 160 0 8 = 1"
  "x_ratio_in_resulting_pixel 84 160 0 9 = 911442781729743 / 1125899906842624"
  by (simp_all add: x_ratio_in_resulting_pixel_def atari_cell_0_0 start_x_def atari_ratios
      float_eval)

lemma atari_y_weights:
  "y_ratio_in_resulting_pixel 84 210 0 8 = 1"
  "y_ratio_in_resulting_pixel 84 210 0 9 = 1"
  "y_ratio_in_resulting_pixel 84 210 0 10 = 83772314497219 / 281474976710656"
  by (simp_all add: y_ratio_in_resulting_pixel_def atari_cell_0_0 atari_start_y atari_ratios
      float_eval)

lemma grayscale_14: "PixelToGrayscale 14 = Inr 236"
  by (simp add: PixelToGrayscale_def PixelToRGB_def ntsc_to_rgb_def RGBToGrayscale_def
      double_to_uint8_def float_eval)

lemma atari_accumulation:
  "add_to_color 84 160 210 0 0 8 8 236 0 = Inr 56"
  "add_to_color 84 160 210 0 0 8 9 236 56 = Inr 112"
  "add_to_color 84 160 210 0 0 8 10 236 112 = Inr 128"
  "add_to_color 84 160 210 0 0 9 8 236 128 = Inr 173"
  "add_to_color 84 160 210 0 0 9 9 236 173 = Inr 218"
  "add_to_color 84 160 210 0 0 9 10 236 218 = Inr 231"
  by (simp_all add: add_to_color_def pixel_weight_def atari_x_weights atari_y_weights
      atari_ratios double_to_uint8_def float_eval)

lemma uniform_screen_read:
  assumes "0 \<le> k" and "k < W * H"
  shows "at_index (getArray (uniform_screen W H pixel)) k = Inr pixel"
  using assms by (simp add: at_index_def uniform_screen_def)

lemma uniform_screen_sides:
  "width (uniform_screen W H pixel) = W" "height (uniform_screen W H pixel) = H"
  by (simp_all add: uniform_screen_def)

theorem weights_within_unit_interval_witness:
  "0 \<le> width (uniform_screen 160 210 14) \<and>
   width (uniform_screen 160 210 14) < height (uniform_screen 160 210 14) \<and>
   height (uniform_screen 160 210 14) < 2 ^ 31 \<and>
   x_ratio_in_resulting_pixel 84 160 0 9 = 911442781729743 / 1125899906842624 \<and>
   0 \<le> x_ratio_in_resulting_pixel 84 160 0 9 \<and>
   x_ratio_in_resulting_pixel 84 160 0 9 \<le> 1 \<and>
   y_ratio_in_resulting_pixel 84 210 0 10 = 83772314497219 / 281474976710656 \<and>
   0 \<le> y_ratio_in_resulting_pixel 84 210 0 10 \<and>
   y_ratio_in_resulting_pixel 84 210 0 10 \<le> 1 \<and>
   PreprocessScreen 84 (uniform_screen 160 210 14) \<noteq> Inl (Assertion_failed X_weight_range) \<and>
   PreprocessScreen 84 (uniform_screen 160 210 14) \<noteq> Inl (Assertion_failed Y_weight_range)"
proof -
  have h: "0 \<le> width (uniform_screen 160 210 14)"
    "width (uniform_screen 160 210 14) < height (uniform_screen 160 210 14)"
    "height (uniform_screen 160 210 14) < 2 ^ 31"
    by (simp_all add: uniform_screen_sides)
  show ?thesis
    using h weights_within_unit_interval [OF h, of 84 0 9 0 10]
    by (simp add: uniform_screen_sides atari_x_weights atari_y_weights)
qed

section \<open>Properties of the accumulation\<close>

text \<open>
  Claim C1, on the code. The value written into a cell is not the real-valued sum converted
  once: \<^verbatim>\<open>resulting_color\<close> is a \<^verbatim>\<open>uint8_t\<close>, so every \<^verbatim>\<open>+=\<close> drops the fraction of the sum so
  far. On the emulator's 160 by 210 screen filled with palette index 14 (grayscale 236), cell
  \<open>(0, 0)\<close> covers six pixels; the code stores 231, while the sum of weight times grayscale
  is \<open>236 - 236 / 8149370754289469\<close>, which converted once is 235.
\<close>

theorem resulting_pixel_truncates_every_step:
  "resulting_pixel 84 (uniform_screen 160 210 14) 0 0 = Inr 231 \<and>
   spec_weighted_sum 84 (uniform_screen 160 210 14) 0 0 = 236 - 236 / 8149370754289469 \<and>
   \<lfloor>spec_weighted_sum 84 (uniform_screen 160 210 14) 0 0\<rfloor> = 235"
proof -
  have code: "resulting_pixel 84 (uniform_screen 160 210 14) 0 0 = Inr 231"
    by (simp add: resulting_pixel_def uniform_screen_sides atari_cell_0_0 atari_x_weights
        atari_y_weights grayscale_14 atari_accumulation uniform_screen_read upto_rec1)
  have spec: "spec_weighted_sum 84 (uniform_screen 160 210 14) 0 0
                = 236 - 236 / 8149370754289469"
    by (simp add: spec_weighted_sum_def uniform_screen_sides atari_cell_0_0 atari_x_weights
        atari_y_weights atari_ratios spec_grayscale_def grayscale_14 upto_rec1
        uniform_screen_def)
  have "\<lfloor>spec_weighted_sum 84 (uniform_screen 160 210 14) 0 0\<rfloor> = 235"
    unfolding spec by simp
  with code spec show ?thesis by blast
qed

section \<open>Properties of the pixel indices\<close>

lemma scaled_floor_bounds:
  assumes S: "1 \<le> S" and c: "0 \<le> c" "c < 2 ^ 31" and k: "0 \<le> k" "k \<le> S"
  shows "0 \<le> \<lfloor>dmul (of_int k) (ddiv (of_int c) (of_int S))\<rfloor>"
    and "\<lfloor>dmul (of_int k) (ddiv (of_int c) (of_int S))\<rfloor> \<le> c"
proof -
  define q where "q = real_of_int c / real_of_int S"
  define r where "r = to_double q"
  define v where "v = real_of_int k * r"
  have Spos: "0 < real_of_int S" using S by simp
  have q0: "0 \<le> q" using c(1) Spos by (simp add: q_def)
  have r0: "0 \<le> r" unfolding r_def using q0 by (rule to_double_nonneg)
  have v0: "0 \<le> v" using k(1) r0 by (simp add: v_def)
  have d0: "0 \<le> to_double v" using v0 by (rule to_double_nonneg)
  have eq: "dmul (of_int k) (ddiv (of_int c) (of_int S)) = to_double v"
    by (simp add: dmul_def ddiv_def v_def r_def q_def)
  show "0 \<le> \<lfloor>dmul (of_int k) (ddiv (of_int c) (of_int S))\<rfloor>"
    using d0 by (simp add: eq)
  have r_le: "r \<le> (1 + 1 / 2 ^ 53) * q" unfolding r_def using q0 by (rule to_double_upper)
  have "v \<le> real_of_int S * r" unfolding v_def using k(2) r0 by (intro mult_right_mono) simp_all
  also have "\<dots> \<le> real_of_int S * ((1 + 1 / 2 ^ 53) * q)"
    using r_le Spos by (intro mult_left_mono) simp_all
  also have "\<dots> = (1 + 1 / 2 ^ 53) * real_of_int c"
    using Spos by (simp add: q_def)
  finally have v_le: "v \<le> (1 + 1 / 2 ^ 53) * real_of_int c" .
  have "to_double v \<le> (1 + 1 / 2 ^ 53) * v" using v0 by (rule to_double_upper)
  also have "\<dots> \<le> (1 + 1 / 2 ^ 53) * ((1 + 1 / 2 ^ 53) * real_of_int c)"
    using v_le by (intro mult_left_mono) simp_all
  also have "\<dots> = real_of_int c + ((1 + 1 / 2 ^ 53) * (1 + 1 / 2 ^ 53) - 1) * real_of_int c"
    by (simp add: algebra_simps)
  also have "\<dots> < real_of_int c + 1"
  proof -
    have "real_of_int c < 2 ^ 31" using c(2) by (metis of_int_less_numeral_power_cancel_iff)
    then have "((1 + 1 / 2 ^ 53) * (1 + 1 / 2 ^ 53) - 1) * real_of_int c
                 \<le> ((1 + 1 / 2 ^ 53) * (1 + 1 / 2 ^ 53) - 1) * 2 ^ 31"
      by (intro mult_left_mono) simp_all
    also have "\<dots> < (1::real)" by simp
    finally show ?thesis by simp
  qed
  finally have "to_double v < real_of_int (c + 1)" by simp
  then have "\<lfloor>to_double v\<rfloor> < c + 1" by (simp only: floor_less_iff)
  then show "\<lfloor>dmul (of_int k) (ddiv (of_int c) (of_int S))\<rfloor> \<le> c"
    by (simp add: eq)
qed

lemma x_range:
  assumes "1 \<le> S" and "8 \<le> W" and "W < 2 ^ 31" and "0 \<le> j" and "j < S"
  shows "8 \<le> first_x S W j" and "last_x S W j \<le> W"
proof -
  have c: "0 \<le> W - 8" "W - 8 < 2 ^ 31" using assms(2,3) by simp_all
  have "0 \<le> \<lfloor>dmul (of_int j) (ddiv (of_int (W - 8)) (of_int S))\<rfloor>"
    using assms(1) c assms(4) by (rule scaled_floor_bounds(1)) (use assms(5) in simp)
  then show "8 \<le> first_x S W j"
    by (simp add: first_x_def x_ratio_def cropped_screen_width_def start_x_def)
  have "\<lfloor>dmul (of_int (j + 1)) (ddiv (of_int (W - 8)) (of_int S))\<rfloor> \<le> W - 8"
    using assms(1) c by (rule scaled_floor_bounds(2)) (use assms(4,5) in simp_all)
  then show "last_x S W j \<le> W"
    by (simp add: last_x_def x_ratio_def cropped_screen_width_def start_x_def)
qed

lemma y_range:
  assumes "1 \<le> S" and "0 \<le> H" and "H < 2 ^ 31" and "0 \<le> i" and "i < S"
  shows "start_y H \<le> first_y S H i" and "last_y S H i \<le> start_y H + cropped_screen_height H"
proof -
  have c: "0 \<le> cropped_screen_height H" "cropped_screen_height H < 2 ^ 31"
    using cropped_screen_height_bounds(1) [OF assms(2)] cropped_screen_height_le [OF assms(2)]
      assms(3) by simp_all
  have "0 \<le> \<lfloor>dmul (of_int i) (ddiv (of_int (cropped_screen_height H)) (of_int S))\<rfloor>"
    using assms(1) c assms(4) by (rule scaled_floor_bounds(1)) (use assms(5) in simp)
  then show "start_y H \<le> first_y S H i"
    by (simp add: first_y_def y_ratio_def)
  have "\<lfloor>dmul (of_int (i + 1)) (ddiv (of_int (cropped_screen_height H)) (of_int S))\<rfloor>
          \<le> cropped_screen_height H"
    using assms(1) c by (rule scaled_floor_bounds(2)) (use assms(4,5) in simp_all)
  then show "last_y S H i \<le> start_y H + cropped_screen_height H"
    by (simp add: last_y_def y_ratio_def)
qed

lemma crop_bottom:
  assumes "26 \<le> H"
  shows "start_y H + cropped_screen_height H \<le> H - 2"
proof -
  have H0: "0 \<le> H" using assms by simp
  define ch where "ch = cropped_screen_height H"
  define h where "h = H - ch"
  have a: "real_of_int ch \<le> (23 / 25 + 1 / 10 ^ 9) * real_of_int H"
    unfolding ch_def by (rule cropped_screen_height_bounds(2) [OF H0])
  have b: "real_of_int (start_y H) \<le> (1 / 2 + 1 / 10 ^ 6) * real_of_int h"
    unfolding h_def ch_def by (rule start_y_bounds(2) [OF H0])
  have H26: "26 \<le> real_of_int H" using assms by simp
  have "real_of_int ch < real_of_int H - 2" using a H26 by simp
  then have "ch < H - 2" by linarith
  then have "3 \<le> h" by (simp add: h_def)
  then have h3: "3 \<le> real_of_int h" by simp
  have "real_of_int (start_y H) \<le> 500001 / 1000000 * real_of_int h"
    using b by simp
  then have "real_of_int (start_y H) < real_of_int h - 1" using h3 by linarith
  then have "start_y H < h - 1" by linarith
  then show ?thesis by (simp add: h_def ch_def)
qed


text \<open>
  Claim C10, as the code has it. For a raw screen with \<open>W \<ge> 8\<close>, \<open>H > W\<close>, \<open>H \<ge> 26\<close> and
  \<open>W \<cdot> H\<close> a C \<^verbatim>\<open>int\<close>, every index \<open>y \<cdot> W + x\<close> the loops read lies in \<open>[0, W \<cdot> H)\<close>, in every
  cell, the right and bottom edges included: there \<open>x\<close> reaches \<open>W\<close> (the first pixel of the
  next row) and \<open>y\<close> at most \<open>H - 2\<close>. So every read of a screen of \<open>W \<cdot> H\<close> pixels succeeds.
\<close>

theorem raw_pixel_indices_in_range:
  assumes "1 \<le> S" and "8 \<le> W" and "W < H" and "26 \<le> H" and "W * H < 2 ^ 31"
    and "0 \<le> i" and "i < S" and "0 \<le> j" and "j < S"
    and "x \<in> set [first_x S W j..last_x S W j]"
    and "y \<in> set [first_y S H i..last_y S H i]"
  shows "0 \<le> y * W + x \<and> y * W + x < W * H \<and> 8 \<le> x \<and> x \<le> W \<and> 0 \<le> y \<and> y \<le> H - 2 \<and>
         (\<forall>raw_screen. width raw_screen = W \<and> height raw_screen = H \<and>
             int (length (getArray raw_screen)) = W * H \<longrightarrow>
             at_index (getArray raw_screen) (y * width raw_screen + x)
               = Inr (getArray raw_screen ! nat (y * W + x)))"
proof -
  have H0: "0 \<le> H" using assms(4) by simp
  have "8 * H \<le> W * H" using assms(2) H0 by (intro mult_right_mono) simp_all
  then have "8 * H < 2 ^ 31" using assms(5) by linarith
  then have H31: "H < 2 ^ 31" using H0 by linarith
  then have W31: "W < 2 ^ 31" using assms(3) by linarith
  have xr: "8 \<le> first_x S W j" "last_x S W j \<le> W"
    using x_range [OF assms(1) assms(2) W31 assms(8) assms(9)] by simp_all
  have yr: "start_y H \<le> first_y S H i" "last_y S H i \<le> start_y H + cropped_screen_height H"
    using y_range [OF assms(1) H0 H31 assms(6) assms(7)] by simp_all
  have x: "8 \<le> x" "x \<le> W" using assms(10) xr by simp_all
  have y: "0 \<le> y" "y \<le> H - 2"
    using assms(11) yr start_y_bounds(1) [OF H0] crop_bottom [OF assms(4)] by simp_all
  have W0: "0 \<le> W" using assms(2) by simp
  have "0 \<le> y * W" using y(1) W0 by simp
  then have lo: "0 \<le> y * W + x" using x(1) by linarith
  have "y * W \<le> (H - 2) * W" using y(2) W0 by (intro mult_right_mono) simp_all
  then have "y * W + x \<le> (H - 2) * W + W" using x(2) by linarith
  also have "\<dots> = W * H - W" by (simp add: algebra_simps)
  also have "\<dots> < W * H" using assms(2) by simp
  finally have hi: "y * W + x < W * H" .
  have "\<forall>raw_screen. width raw_screen = W \<and> height raw_screen = H \<and>
             int (length (getArray raw_screen)) = W * H \<longrightarrow>
             at_index (getArray raw_screen) (y * width raw_screen + x)
               = Inr (getArray raw_screen ! nat (y * W + x))"
    using lo hi by (simp add: at_index_def)
  then show ?thesis using lo hi x y by blast
qed

lemma atari_cell_83_83:
  "first_x 84 160 83 = 158" "last_x 84 160 83 = 160"
  "first_y 84 210 83 = 198" "last_y 84 210 83 = 201"
  by (simp_all add: first_x_def last_x_def first_y_def last_y_def start_x_def atari_start_y
      atari_ratios float_eval)

theorem raw_pixel_indices_in_range_witness:
  "(1::int) \<le> 84 \<and> (8::int) \<le> 160 \<and> (160::int) < 210 \<and> (26::int) \<le> 210 \<and>
   (160::int) * 210 < 2 ^ 31 \<and> (0::int) \<le> 83 \<and> (83::int) < 84 \<and>
   160 \<in> set [first_x 84 160 83..last_x 84 160 83] \<and>
   201 \<in> set [first_y 84 210 83..last_y 84 210 83] \<and>
   (0::int) \<le> 201 * 160 + 160 \<and> (201::int) * 160 + 160 < 160 * 210 \<and>
   at_index (getArray (uniform_screen 160 210 14)) (201 * 160 + 160) = Inr 14"
proof -
  have h: "(1::int) \<le> 84" "(8::int) \<le> 160" "(160::int) < 210" "(26::int) \<le> 210"
    "(160::int) * 210 < 2 ^ 31" "(0::int) \<le> 83" "(83::int) < 84"
    by simp_all
  have hx: "160 \<in> set [first_x 84 160 83..last_x 84 160 83]"
    and hy: "201 \<in> set [first_y 84 210 83..last_y 84 210 83]"
    by (simp_all add: atari_cell_83_83)
  have rd: "at_index (getArray (uniform_screen 160 210 14)) (201 * 160 + 160) = Inr 14"
    by (simp add: uniform_screen_read)
  show ?thesis
    using h hx hy rd
      raw_pixel_indices_in_range [OF h(1) h(2) h(3) h(4) h(5) h(6) h(7) h(6) h(7) hx hy]
    by simp
qed

text \<open>
  The claim fails for small screens. On a 10 by 12 screen (\<open>H > W\<close>) the last cell,
  \<open>(83, 83)\<close>, reads column \<open>x = 10\<close> of row \<open>y = 11\<close>: index \<open>120 = W \<cdot> H\<close>, one past the
  array.
\<close>

lemma small_screen_ratios:
  "x_ratio 84 10 = 857828500451523 / 36028797018963968"
  "cropped_screen_height 12 = 11"
  "y_ratio 84 12 = 4718056752483377 / 36028797018963968"
proof -
  show "x_ratio 84 10 = 857828500451523 / 36028797018963968"
    by (simp add: x_ratio_def cropped_screen_width_def start_x_def float_eval)
  show ch: "cropped_screen_height 12 = 11"
    by (simp add: cropped_screen_height_def float_eval)
  show "y_ratio 84 12 = 4718056752483377 / 36028797018963968"
    by (simp add: y_ratio_def ch float_eval)
qed

lemma small_screen_start_y: "start_y 12 = 0"
  by (simp add: start_y_def small_screen_ratios float_eval)

lemma small_screen_cell_83_83:
  "first_x 84 10 83 = 9" "last_x 84 10 83 = 10"
  "first_y 84 12 83 = 10" "last_y 84 12 83 = 11"
  by (simp_all add: first_x_def last_x_def first_y_def last_y_def start_x_def
      small_screen_start_y small_screen_ratios float_eval)

lemma grayscale_0: "PixelToGrayscale 0 = Inr 0"
  by (simp add: PixelToGrayscale_def PixelToRGB_def ntsc_to_rgb_def RGBToGrayscale_def
      double_to_uint8_def float_eval)

lemma add_to_color_black:
  assumes "x_ratio S W \<noteq> 0" and "y_ratio S H \<noteq> 0"
  shows "add_to_color S W H i j x y 0 0 = Inr 0"
  using assms
  by (simp add: add_to_color_def dadd_def dmul_def to_double_def round_to_def
      double_to_uint8_def static_cast_int_def)

theorem small_screen_reads_past_the_end:
  "10 \<in> set [first_x 84 10 83..last_x 84 10 83] \<and>
   11 \<in> set [first_y 84 12 83..last_y 84 12 83] \<and>
   (11::int) * 10 + 10 = 10 * 12 \<and>
   resulting_pixel 84 (uniform_screen 10 12 0) 83 83
     = Inl (Undefined_behaviour (Index_out_of_range 120))"
proof -
  have xr: "x_ratio 84 10 \<noteq> 0" and yr: "y_ratio 84 12 \<noteq> 0"
    by (simp_all add: small_screen_ratios)
  have sy: "\<bar>real_of_int (start_y 12)\<bar> + 1 < 2 ^ 53"
    by (simp add: small_screen_start_y)
  have "resulting_pixel 84 (uniform_screen 10 12 0) 83 83
          = Inl (Undefined_behaviour (Index_out_of_range 120))"
    by (simp add: resulting_pixel_def uniform_screen_sides small_screen_cell_83_83 upto_rec1
        x_weight_unit y_weight_unit [OF sy] grayscale_0 add_to_color_black [OF xr yr]
        uniform_screen_read)
      (simp add: at_index_def uniform_screen_def)
  then show ?thesis by (simp add: small_screen_cell_83_83)
qed

section \<open>Properties of the total weight of a cell\<close>

lemma sum_list_relative_error:
  fixes f g :: "'a \<Rightarrow> real"
  assumes "\<And>x. x \<in> set xs \<Longrightarrow> \<bar>g x - f x\<bar> \<le> c * f x"
  shows "\<bar>(\<Sum>x \<leftarrow> xs. g x) - (\<Sum>x \<leftarrow> xs. f x)\<bar> \<le> c * (\<Sum>x \<leftarrow> xs. f x)"
  using assms
proof (induction xs)
  case Nil
  then show ?case by simp
next
  case (Cons a xs)
  have head: "\<bar>g a - f a\<bar> \<le> c * f a" using Cons.prems by simp
  have tail: "\<bar>(\<Sum>x \<leftarrow> xs. g x) - (\<Sum>x \<leftarrow> xs. f x)\<bar> \<le> c * (\<Sum>x \<leftarrow> xs. f x)"
    using Cons.IH Cons.prems by simp
  have "\<bar>(\<Sum>x \<leftarrow> a # xs. g x) - (\<Sum>x \<leftarrow> a # xs. f x)\<bar>
          = \<bar>(g a - f a) + ((\<Sum>x \<leftarrow> xs. g x) - (\<Sum>x \<leftarrow> xs. f x))\<bar>"
    by simp
  also have "\<dots> \<le> \<bar>g a - f a\<bar> + \<bar>(\<Sum>x \<leftarrow> xs. g x) - (\<Sum>x \<leftarrow> xs. f x)\<bar>"
    by (rule abs_triangle_ineq)
  also have "\<dots> \<le> c * f a + c * (\<Sum>x \<leftarrow> xs. f x)" using head tail by linarith
  also have "\<dots> = c * (\<Sum>x \<leftarrow> a # xs. f x)" by (simp add: algebra_simps)
  finally show ?case .
qed

lemma sum_list_ones: "a \<le> b + 1 \<Longrightarrow> (\<Sum>x \<leftarrow> [a..b]. (1::real)) = of_int (b - a + 1)"
proof (induction a b rule: upto.induct)
  case (1 i j)
  show ?case
  proof (cases "i \<le> j")
    case True
    then have "[i..j] = i # [i + 1..j]" by (simp add: upto_rec1)
    moreover have "(\<Sum>x \<leftarrow> [i + 1..j]. (1::real)) = of_int (j - (i + 1) + 1)"
      using True by (intro "1.IH") simp_all
    ultimately show ?thesis by simp
  next
    case False
    then have "i = j + 1" using "1.prems" by simp
    then show ?thesis by simp
  qed
qed

lemma sum_list_first_inner_last:
  fixes w :: "int \<Rightarrow> real"
  assumes "a < b" and inner: "\<And>x. a < x \<Longrightarrow> x < b \<Longrightarrow> w x = 1"
  shows "(\<Sum>x \<leftarrow> [a..b]. w x) = w a + of_int (b - a - 1) + w b"
proof -
  have split: "[a..b] = a # [a + 1..b - 1] @ [b]"
  proof -
    have "[a..b] = a # [a + 1..b]" using assms(1) by (simp add: upto_rec1)
    moreover have "[a + 1..b] = [a + 1..b - 1] @ [b]" using assms(1) by (simp add: upto_rec2)
    ultimately show ?thesis by simp
  qed
  have "(\<Sum>x \<leftarrow> [a + 1..b - 1]. w x) = (\<Sum>x \<leftarrow> [a + 1..b - 1]. (1::real))"
    by (rule arg_cong [where f = sum_list], rule map_cong) (use inner in auto)
  also have "\<dots> = of_int (b - 1 - (a + 1) + 1)"
    using assms(1) by (intro sum_list_ones) simp
  finally have "(\<Sum>x \<leftarrow> [a + 1..b - 1]. w x) = of_int (b - a - 1)" by simp
  then show ?thesis by (simp add: split)
qed


lemma first_weight_error:
  assumes "\<bar>real_of_int b\<bar> + 1 < 2 ^ 53"
  shows "\<bar>dsub (dsub (of_int (b + \<lfloor>p\<rfloor> + 1)) p) (of_int b) - (of_int \<lfloor>p\<rfloor> + 1 - p)\<bar>
           \<le> (\<bar>real_of_int b\<bar> + 2) / 2 ^ 53"
proof -
  define a where "a = real_of_int (b + \<lfloor>p\<rfloor> + 1) - p"
  define c where "c = to_double a - real_of_int b"
  have lo: "of_int b \<le> a" and hi: "a \<le> of_int (b + 1)"
    unfolding a_def by (simp; linarith)+
  have abs_a: "\<bar>a\<bar> \<le> \<bar>real_of_int b\<bar> + 1" using lo hi by simp
  then have small: "\<bar>a\<bar> < 2 ^ 53" using assms by linarith
  have "of_int b \<le> to_double a \<and> to_double a \<le> of_int (b + 1)"
    using lo hi small by (rule to_double_between_ints)
  then have c01: "0 \<le> c" "c \<le> 1" by (simp_all add: c_def)
  have e1: "\<bar>to_double a - a\<bar> \<le> (\<bar>real_of_int b\<bar> + 1) / 2 ^ 53"
  proof -
    have "\<bar>to_double a - a\<bar> \<le> \<bar>a\<bar> / 2 ^ 53" by (rule to_double_error)
    also have "\<dots> \<le> (\<bar>real_of_int b\<bar> + 1) / 2 ^ 53"
      using abs_a by (simp add: divide_right_mono)
    finally show ?thesis .
  qed
  have e2: "\<bar>to_double c - c\<bar> \<le> 1 / 2 ^ 53"
  proof -
    have "\<bar>to_double c - c\<bar> \<le> \<bar>c\<bar> / 2 ^ 53" by (rule to_double_error)
    also have "\<dots> \<le> 1 / 2 ^ 53" using c01 by (simp add: divide_right_mono)
    finally show ?thesis .
  qed
  have exact: "of_int \<lfloor>p\<rfloor> + 1 - p = a - real_of_int b" by (simp add: a_def)
  have "dsub (dsub (of_int (b + \<lfloor>p\<rfloor> + 1)) p) (of_int b) = to_double c"
    by (simp add: dsub_def c_def a_def)
  moreover have "\<bar>to_double c - (a - real_of_int b)\<bar>
                   \<le> \<bar>to_double c - c\<bar> + \<bar>to_double a - a\<bar>"
    unfolding c_def by linarith
  ultimately have "\<bar>dsub (dsub (of_int (b + \<lfloor>p\<rfloor> + 1)) p) (of_int b) - (of_int \<lfloor>p\<rfloor> + 1 - p)\<bar>
                     \<le> 1 / 2 ^ 53 + (\<bar>real_of_int b\<bar> + 1) / 2 ^ 53"
    using e1 e2 exact by linarith
  then show ?thesis by (simp add: add_divide_distrib)
qed

lemma last_weight_error:
  assumes "\<bar>real_of_int b\<bar> + 1 < 2 ^ 53"
  shows "\<bar>dadd (dsub p (of_int (b + \<lfloor>p\<rfloor>))) (of_int b) - (p - of_int \<lfloor>p\<rfloor>)\<bar>
           \<le> (\<bar>real_of_int b\<bar> + 2) / 2 ^ 53"
proof -
  define a where "a = p - real_of_int (b + \<lfloor>p\<rfloor>)"
  define c where "c = to_double a + real_of_int b"
  have lo: "of_int (- b) \<le> a" and hi: "a \<le> of_int (1 - b)"
    unfolding a_def by (simp; linarith)+
  have abs_a: "\<bar>a\<bar> \<le> \<bar>real_of_int b\<bar> + 1" using lo hi by simp
  then have small: "\<bar>a\<bar> < 2 ^ 53" using assms by linarith
  have "of_int (- b) \<le> to_double a \<and> to_double a \<le> of_int (1 - b)"
    using lo hi small by (rule to_double_between_ints)
  then have c01: "0 \<le> c" "c \<le> 1" by (simp_all add: c_def)
  have e1: "\<bar>to_double a - a\<bar> \<le> (\<bar>real_of_int b\<bar> + 1) / 2 ^ 53"
  proof -
    have "\<bar>to_double a - a\<bar> \<le> \<bar>a\<bar> / 2 ^ 53" by (rule to_double_error)
    also have "\<dots> \<le> (\<bar>real_of_int b\<bar> + 1) / 2 ^ 53"
      using abs_a by (simp add: divide_right_mono)
    finally show ?thesis .
  qed
  have e2: "\<bar>to_double c - c\<bar> \<le> 1 / 2 ^ 53"
  proof -
    have "\<bar>to_double c - c\<bar> \<le> \<bar>c\<bar> / 2 ^ 53" by (rule to_double_error)
    also have "\<dots> \<le> 1 / 2 ^ 53" using c01 by (simp add: divide_right_mono)
    finally show ?thesis .
  qed
  have exact: "p - of_int \<lfloor>p\<rfloor> = a + real_of_int b" by (simp add: a_def)
  have "dadd (dsub p (of_int (b + \<lfloor>p\<rfloor>))) (of_int b) = to_double c"
    by (simp add: dadd_def dsub_def c_def a_def)
  moreover have "\<bar>to_double c - (a + real_of_int b)\<bar>
                   \<le> \<bar>to_double c - c\<bar> + \<bar>to_double a - a\<bar>"
    unfolding c_def by linarith
  ultimately have "\<bar>dadd (dsub p (of_int (b + \<lfloor>p\<rfloor>))) (of_int b) - (p - of_int \<lfloor>p\<rfloor>)\<bar>
                     \<le> 1 / 2 ^ 53 + (\<bar>real_of_int b\<bar> + 1) / 2 ^ 53"
    using e1 e2 exact by linarith
  then show ?thesis by (simp add: add_divide_distrib)
qed

lemma axis_weight_sum:
  fixes w :: "int \<Rightarrow> real"
  assumes small: "\<bar>real_of_int b\<bar> + 1 < 2 ^ 53"
    and first: "w (b + \<lfloor>p\<rfloor>) = dsub (dsub (of_int (b + \<lfloor>p\<rfloor> + 1)) p) (of_int b)"
    and last: "w (b + \<lfloor>p'\<rfloor>) = dadd (dsub p' (of_int (b + \<lfloor>p'\<rfloor>))) (of_int b)"
    and inner: "\<And>x. b + \<lfloor>p\<rfloor> < x \<Longrightarrow> x < b + \<lfloor>p'\<rfloor> \<Longrightarrow> w x = 1"
    and step: "\<lfloor>p\<rfloor> < \<lfloor>p'\<rfloor>"
  shows "\<bar>(\<Sum>x \<leftarrow> [b + \<lfloor>p\<rfloor>..b + \<lfloor>p'\<rfloor>]. w x) - (p' - p)\<bar>
           \<le> 2 * (\<bar>real_of_int b\<bar> + 2) / 2 ^ 53"
proof -
  have lt: "b + \<lfloor>p\<rfloor> < b + \<lfloor>p'\<rfloor>" using step by simp
  have "(\<Sum>x \<leftarrow> [b + \<lfloor>p\<rfloor>..b + \<lfloor>p'\<rfloor>]. w x)
          = w (b + \<lfloor>p\<rfloor>) + of_int (b + \<lfloor>p'\<rfloor> - (b + \<lfloor>p\<rfloor>) - 1) + w (b + \<lfloor>p'\<rfloor>)"
    using lt inner by (rule sum_list_first_inner_last)
  then have sum: "(\<Sum>x \<leftarrow> [b + \<lfloor>p\<rfloor>..b + \<lfloor>p'\<rfloor>]. w x) - (p' - p)
          = (w (b + \<lfloor>p\<rfloor>) - (of_int \<lfloor>p\<rfloor> + 1 - p)) + (w (b + \<lfloor>p'\<rfloor>) - (p' - of_int \<lfloor>p'\<rfloor>))"
    by simp
  have e1: "\<bar>w (b + \<lfloor>p\<rfloor>) - (of_int \<lfloor>p\<rfloor> + 1 - p)\<bar> \<le> (\<bar>real_of_int b\<bar> + 2) / 2 ^ 53"
    unfolding first using small by (rule first_weight_error)
  have e2: "\<bar>w (b + \<lfloor>p'\<rfloor>) - (p' - of_int \<lfloor>p'\<rfloor>)\<bar> \<le> (\<bar>real_of_int b\<bar> + 2) / 2 ^ 53"
    unfolding last using small by (rule last_weight_error)
  have "\<bar>(\<Sum>x \<leftarrow> [b + \<lfloor>p\<rfloor>..b + \<lfloor>p'\<rfloor>]. w x) - (p' - p)\<bar>
          \<le> (\<bar>real_of_int b\<bar> + 2) / 2 ^ 53 + (\<bar>real_of_int b\<bar> + 2) / 2 ^ 53"
    unfolding sum using e1 e2 by linarith
  then show ?thesis by simp
qed


lemma product_step_error:
  assumes "0 \<le> r" and "0 \<le> k"
  shows "\<bar>dmul (of_int (k + 1)) r - dmul (of_int k) r - r\<bar>
           \<le> (2 * real_of_int k + 1) * r / 2 ^ 53"
proof -
  have v0: "0 \<le> real_of_int k * r" and v1: "0 \<le> real_of_int (k + 1) * r"
    using assms by simp_all
  have e0: "\<bar>dmul (of_int k) r - real_of_int k * r\<bar> \<le> (1 / 2 ^ 53) * (real_of_int k * r)"
    unfolding dmul_def using v0 by (rule to_double_relative)
  have e1: "\<bar>dmul (of_int (k + 1)) r - real_of_int (k + 1) * r\<bar>
              \<le> (1 / 2 ^ 53) * (real_of_int (k + 1) * r)"
    unfolding dmul_def using v1 by (rule to_double_relative)
  have "real_of_int (k + 1) * r - real_of_int k * r = r" by (simp add: algebra_simps)
  then have "\<bar>dmul (of_int (k + 1)) r - dmul (of_int k) r - r\<bar>
          \<le> (1 / 2 ^ 53) * (real_of_int (k + 1) * r) + (1 / 2 ^ 53) * (real_of_int k * r)"
    using e0 e1 by linarith
  also have "\<dots> = (2 * real_of_int k + 1) * r / 2 ^ 53" by (simp add: algebra_simps)
  finally show ?thesis .
qed

lemma ratio_ge_one:
  assumes "1 \<le> S" and "S \<le> c" and "c < 2 ^ 31"
  shows "1 \<le> ddiv (of_int c) (of_int S)"
proof -
  have Spos: "0 < real_of_int S" using assms(1) by simp
  have q1: "of_int 1 \<le> real_of_int c / real_of_int S" using assms(2) Spos by simp
  have "real_of_int c / real_of_int S \<le> real_of_int c"
    using assms(1,2) Spos by (simp add: field_simps mult_le_cancel_left1)
  moreover have "real_of_int c < 2 ^ 31" using assms(3) by (metis of_int_less_numeral_power_cancel_iff)
  moreover have "0 \<le> real_of_int c / real_of_int S" using q1 by simp
  ultimately have "\<bar>real_of_int c / real_of_int S\<bar> < 2 ^ 53" by simp
  with q1 have "of_int 1 \<le> round_to 53 (real_of_int c / real_of_int S)"
    by (rule round_to_ge_int)
  then show ?thesis by (simp add: ddiv_def to_double_def)
qed

lemma ratio_floor_step:
  assumes S: "1 \<le> S" "S \<le> 2 ^ 16" and c: "S \<le> c" "c < 2 ^ 31" and k: "0 \<le> k" "k < S"
  shows "\<lfloor>dmul (of_int k) (ddiv (of_int c) (of_int S))\<rfloor>
           < \<lfloor>dmul (of_int (k + 1)) (ddiv (of_int c) (of_int S))\<rfloor>"
proof -
  define r where "r = ddiv (real_of_int c) (real_of_int S)"
  define p where "p = dmul (of_int k) r"
  define p' where "p' = dmul (of_int (k + 1)) r"
  have Spos: "0 < real_of_int S" using S(1) by simp
  have S16: "real_of_int S \<le> 2 ^ 16" using S(2) by (metis of_int_le_numeral_power_cancel_iff)
  have k16: "real_of_int k + 1 \<le> 2 ^ 16" using k(2) S16 by linarith
  have "p + 1 \<le> p'"
  proof (cases "c = S")
    case True
    have "r = to_double 1" using Spos by (simp add: r_def ddiv_def True)
    also have "\<dots> = 1" using to_double_int [of 1] by simp
    finally have r1: "r = 1" .
    have "\<bar>real_of_int k\<bar> < 2 ^ 53" using k(1) k16 by simp
    then have "p = of_int k" by (simp add: p_def dmul_def r1 to_double_int)
    moreover have "\<bar>real_of_int (k + 1)\<bar> < 2 ^ 53" using k(1) k16 by simp
    then have "p' = of_int (k + 1)" by (simp only: p'_def dmul_def r1 mult_1_right to_double_int)
    ultimately show ?thesis by simp
  next
    case False
    then have "S + 1 \<le> c" using c(1) by simp
    then have "real_of_int S + 1 \<le> real_of_int c" by linarith
    then have "(real_of_int S + 1) / real_of_int S \<le> real_of_int c / real_of_int S"
      using Spos by (intro divide_right_mono) simp_all
    moreover have "(real_of_int S + 1) / real_of_int S = 1 + 1 / real_of_int S"
      using Spos by (simp add: field_simps)
    ultimately have "1 + 1 / real_of_int S \<le> real_of_int c / real_of_int S" by simp
    moreover have "1 / 2 ^ 16 \<le> 1 / real_of_int S"
      using S16 Spos by (simp add: field_simps)
    ultimately have q: "1 + 1 / 2 ^ 16 \<le> real_of_int c / real_of_int S" by linarith
    have "(0::real) \<le> 1 + 1 / 2 ^ 16" by simp
    then have q0: "0 \<le> real_of_int c / real_of_int S" using q by (rule order_trans)
    have "(1 - 1 / 2 ^ 53) * (1 + 1 / 2 ^ 16)
            \<le> (1 - 1 / 2 ^ 53) * (real_of_int c / real_of_int S)"
      using q by (intro mult_left_mono) simp_all
    also have "\<dots> \<le> r" unfolding r_def ddiv_def using q0 by (rule to_double_lower)
    finally have r_lo: "(1 - 1 / 2 ^ 53) * (1 + 1 / 2 ^ 16) \<le> r" .
    have r0: "0 \<le> r" using r_lo by simp
    have "\<bar>p' - p - r\<bar> \<le> (2 * real_of_int k + 1) * r / 2 ^ 53"
      unfolding p_def p'_def using r0 k(1) by (rule product_step_error)
    also have "\<dots> \<le> 2 ^ 17 * r / 2 ^ 53"
      using k16 r0 by (intro divide_right_mono mult_right_mono) simp_all
    finally have "r - 2 ^ 17 * r / 2 ^ 53 \<le> p' - p" by linarith
    moreover have "r - 2 ^ 17 * r / 2 ^ 53 = (1 - 2 ^ 17 / 2 ^ 53) * r" by (simp add: algebra_simps)
    moreover have "(1 - 2 ^ 17 / 2 ^ 53) * ((1 - 1 / 2 ^ 53) * (1 + 1 / 2 ^ 16))
                     \<le> (1 - 2 ^ 17 / 2 ^ 53) * r"
      using r_lo by (intro mult_left_mono) simp_all
    moreover have "(1::real) \<le> (1 - 2 ^ 17 / 2 ^ 53) * ((1 - 1 / 2 ^ 53) * (1 + 1 / 2 ^ 16))"
      by simp
    ultimately show ?thesis by linarith
  qed
  then have "\<lfloor>p + 1\<rfloor> \<le> \<lfloor>p'\<rfloor>" by (rule floor_mono)
  then have "\<lfloor>p\<rfloor> < \<lfloor>p'\<rfloor>" by simp
  then show ?thesis by (simp add: p_def p'_def r_def)
qed


lemma sum_list_divide_const:
  fixes f :: "'a \<Rightarrow> real"
  shows "(\<Sum>x \<leftarrow> xs. f x / c) = (\<Sum>x \<leftarrow> xs. f x) / c"
  by (induction xs) (simp_all add: add_divide_distrib)

lemma axis_normalised:
  fixes w :: "int \<Rightarrow> real"
  assumes S: "1 \<le> S" "S \<le> 2 ^ 16" and c: "S \<le> c" "c < 2 ^ 31" and k: "0 \<le> k" "k < S"
    and r: "r = ddiv (of_int c) (of_int S)"
    and p: "p = dmul (of_int k) r" and p': "p' = dmul (of_int (k + 1)) r"
    and small: "\<bar>real_of_int b\<bar> + 1 < 2 ^ 53"
    and offset: "\<bar>real_of_int b\<bar> + 2 \<le> (real_of_int S + 10) * r"
    and first: "w (b + \<lfloor>p\<rfloor>) = dsub (dsub (of_int (b + \<lfloor>p\<rfloor> + 1)) p) (of_int b)"
    and last: "w (b + \<lfloor>p'\<rfloor>) = dadd (dsub p' (of_int (b + \<lfloor>p'\<rfloor>))) (of_int b)"
    and inner: "\<And>x. b + \<lfloor>p\<rfloor> < x \<Longrightarrow> x < b + \<lfloor>p'\<rfloor> \<Longrightarrow> w x = 1"
    and nonneg: "\<And>x. 0 \<le> w x"
  shows "\<bar>(\<Sum>x \<leftarrow> [b + \<lfloor>p\<rfloor>..b + \<lfloor>p'\<rfloor>]. ddiv (w x) r) - 1\<bar> \<le> 1 / 10 ^ 10"
proof -
  define SW where "SW = (\<Sum>x \<leftarrow> [b + \<lfloor>p\<rfloor>..b + \<lfloor>p'\<rfloor>]. w x)"
  define XA where "XA = (\<Sum>x \<leftarrow> [b + \<lfloor>p\<rfloor>..b + \<lfloor>p'\<rfloor>]. ddiv (w x) r)"
  have r1: "1 \<le> r" unfolding r using S(1) c by (rule ratio_ge_one)
  then have r0: "0 \<le> r" and rpos: "0 < r" by simp_all
  have step: "\<lfloor>p\<rfloor> < \<lfloor>p'\<rfloor>" unfolding p p' r using S c k by (rule ratio_floor_step)
  have S16: "real_of_int S \<le> 2 ^ 16" using S(2) by (metis of_int_le_numeral_power_cancel_iff)
  have kS: "real_of_int k + 1 \<le> real_of_int S" using k(2) by linarith
  have A1: "\<bar>SW - (p' - p)\<bar> \<le> 2 * (\<bar>real_of_int b\<bar> + 2) / 2 ^ 53"
    unfolding SW_def using small first last inner step by (rule axis_weight_sum)
  have A2: "\<bar>p' - p - r\<bar> \<le> (2 * real_of_int k + 1) * r / 2 ^ 53"
    unfolding p p' using r0 k(1) by (rule product_step_error)
  have B1: "2 * (\<bar>real_of_int b\<bar> + 2) / 2 ^ 53 \<le> 2 * ((real_of_int S + 10) * r) / 2 ^ 53"
    using offset by (intro divide_right_mono mult_left_mono) simp_all
  have B2: "(2 * real_of_int k + 1) * r / 2 ^ 53 \<le> (2 * real_of_int S - 1) * r / 2 ^ 53"
    using kS r0 by (intro divide_right_mono mult_right_mono) simp_all
  have "\<bar>SW - r\<bar> \<le> 2 * ((real_of_int S + 10) * r) / 2 ^ 53
                      + (2 * real_of_int S - 1) * r / 2 ^ 53"
    using A1 A2 B1 B2 by linarith
  also have "\<dots> = (2 * ((real_of_int S + 10) * r) + (2 * real_of_int S - 1) * r) / 2 ^ 53"
    by (simp only: add_divide_distrib)
  also have "2 * ((real_of_int S + 10) * r) + (2 * real_of_int S - 1) * r
               = (4 * real_of_int S + 19) * r"
    by (simp add: algebra_simps)
  also have "(4 * real_of_int S + 19) * r / 2 ^ 53 \<le> 262163 * r / 2 ^ 53"
    using S16 r0 by (intro divide_right_mono mult_right_mono) simp_all
  finally have C: "\<bar>SW - r\<bar> \<le> 262163 * r / 2 ^ 53" .
  have "\<bar>SW / r - 1\<bar> = \<bar>SW - r\<bar> / r"
    using rpos by (simp add: field_simps abs_divide)
  also have "\<dots> \<le> (262163 * r / 2 ^ 53) / r"
    using C r0 by (rule divide_right_mono)
  also have "\<dots> = 262163 / 2 ^ 53" using rpos by simp
  finally have Q: "\<bar>SW / r - 1\<bar> \<le> 262163 / 2 ^ 53" .
  have "\<bar>(\<Sum>x \<leftarrow> [b + \<lfloor>p\<rfloor>..b + \<lfloor>p'\<rfloor>]. to_double (w x / r))
           - (\<Sum>x \<leftarrow> [b + \<lfloor>p\<rfloor>..b + \<lfloor>p'\<rfloor>]. w x / r)\<bar>
          \<le> (1 / 2 ^ 53) * (\<Sum>x \<leftarrow> [b + \<lfloor>p\<rfloor>..b + \<lfloor>p'\<rfloor>]. w x / r)"
  proof (rule sum_list_relative_error)
    fix x
    have "0 \<le> w x / r" using nonneg [of x] r0 by simp
    then show "\<bar>to_double (w x / r) - w x / r\<bar> \<le> 1 / 2 ^ 53 * (w x / r)"
      by (rule to_double_relative)
  qed
  moreover have "(\<Sum>x \<leftarrow> [b + \<lfloor>p\<rfloor>..b + \<lfloor>p'\<rfloor>]. w x / r) = SW / r"
    unfolding SW_def by (rule sum_list_divide_const)
  moreover have "(\<Sum>x \<leftarrow> [b + \<lfloor>p\<rfloor>..b + \<lfloor>p'\<rfloor>]. to_double (w x / r)) = XA"
    unfolding XA_def ddiv_def ..
  ultimately have D: "\<bar>XA - SW / r\<bar> \<le> (1 / 2 ^ 53) * (SW / r)" by (simp only:)
  have "SW / r \<le> 1 + 262163 / 2 ^ 53" using Q by linarith
  then have "(1 / 2 ^ 53) * (SW / r) \<le> (1 / 2 ^ 53) * (1 + 262163 / 2 ^ 53)"
    by (intro mult_left_mono) simp_all
  then have "\<bar>XA - 1\<bar> \<le> 262163 / 2 ^ 53 + (1 / 2 ^ 53) * (1 + 262163 / 2 ^ 53)"
    using D Q by linarith
  also have "\<dots> \<le> 1 / 10 ^ 10" by simp
  finally show ?thesis by (simp only: XA_def)
qed


lemma cropped_screen_height_lower:
  assumes "0 \<le> H"
  shows "9 / 10 * real_of_int H - 1 \<le> real_of_int (cropped_screen_height H)"
proof -
  define v where "v = to_double 0.92 * real_of_int H"
  have v_eq: "v = 8286623314361713 / 9007199254740992 * real_of_int H"
    unfolding v_def to_double_092 ..
  have v0: "0 \<le> v" using assms by (simp add: v_eq)
  have d0: "0 \<le> to_double v" using v0 by (rule to_double_nonneg)
  have ch: "cropped_screen_height H = \<lfloor>to_double v\<rfloor>"
    using d0 by (simp add: cropped_screen_height_def dmul_def static_cast_int_def v_def)
  have "9 / 10 * real_of_int H
          \<le> ((1 - 1 / 2 ^ 53) * (8286623314361713 / 9007199254740992)) * real_of_int H"
    using assms by (intro mult_right_mono) simp_all
  also have "\<dots> = (1 - 1 / 2 ^ 53) * v" by (simp add: v_eq)
  also have "\<dots> \<le> to_double v" using v0 by (rule to_double_lower)
  finally have "9 / 10 * real_of_int H \<le> to_double v" .
  moreover have "to_double v - 1 < real_of_int \<lfloor>to_double v\<rfloor>" by linarith
  ultimately show ?thesis unfolding ch by linarith
qed

lemma y_offset_bound:
  assumes "1 \<le> S" and "S \<le> cropped_screen_height H" and "0 \<le> H" and "H < 2 ^ 31"
  shows "\<bar>real_of_int (start_y H)\<bar> + 2 \<le> (real_of_int S + 10) * y_ratio S H"
proof -
  define ch where "ch = cropped_screen_height H"
  define h where "h = H - ch"
  have Spos: "0 < real_of_int S" using assms(1) by simp
  have ch31: "ch < 2 ^ 31"
    using cropped_screen_height_le [OF assms(3)] assms(4) by (simp add: ch_def)
  have r1: "1 \<le> y_ratio S H"
    unfolding y_ratio_def ch_def [symmetric]
    using assms(1) assms(2) [folded ch_def] ch31 by (rule ratio_ge_one)
  have ch0: "0 \<le> real_of_int ch" using assms(1,2) by (simp add: ch_def)
  then have q0: "0 \<le> real_of_int ch / real_of_int S" using Spos by simp
  have "(1 - 1 / 2 ^ 53) * (real_of_int ch / real_of_int S) \<le> y_ratio S H"
    unfolding y_ratio_def ddiv_def ch_def [symmetric] using q0 by (rule to_double_lower)
  then have "real_of_int S * ((1 - 1 / 2 ^ 53) * (real_of_int ch / real_of_int S))
               \<le> real_of_int S * y_ratio S H"
    using Spos by (intro mult_left_mono) simp_all
  moreover have "real_of_int S * ((1 - 1 / 2 ^ 53) * (real_of_int ch / real_of_int S))
                   = (1 - 1 / 2 ^ 53) * real_of_int ch"
    using Spos by simp
  ultimately have Sr: "(1 - 1 / 2 ^ 53) * real_of_int ch \<le> real_of_int S * y_ratio S H"
    by simp
  have low: "9 / 10 * real_of_int H - 1 \<le> real_of_int ch"
    unfolding ch_def by (rule cropped_screen_height_lower [OF assms(3)])
  have sy0: "0 \<le> start_y H" by (rule start_y_bounds(1) [OF assms(3)])
  have "real_of_int (start_y H) \<le> (1 / 2 + 1 / 10 ^ 6) * real_of_int h"
    unfolding h_def ch_def by (rule start_y_bounds(2) [OF assms(3)])
  then have sy: "real_of_int (start_y H) \<le> 500001 / 1000000 * real_of_int h" by simp
  have hdef: "real_of_int h = real_of_int H - real_of_int ch" by (simp add: h_def)
  have "real_of_int (start_y H) + 2 \<le> (1 - 1 / 2 ^ 53) * real_of_int ch + 10"
  proof -
    have "(1 - 1 / 2 ^ 53) * real_of_int ch = real_of_int ch - real_of_int ch / 2 ^ 53"
      by (simp add: algebra_simps)
    moreover have "real_of_int ch / 2 ^ 53 \<le> real_of_int ch / 2"
      using ch0 by (intro divide_left_mono) simp_all
    ultimately show ?thesis using sy hdef low ch0 by linarith
  qed
  also have "\<dots> \<le> real_of_int S * y_ratio S H + 10 * y_ratio S H" using Sr r1 by linarith
  also have "\<dots> = (real_of_int S + 10) * y_ratio S H" by (simp add: algebra_simps)
  finally show ?thesis using sy0 by simp
qed

lemma x_offset_bound:
  assumes "1 \<le> S" and "S \<le> W - 8" and "W < 2 ^ 31"
  shows "\<bar>real_of_int start_x\<bar> + 2 \<le> (real_of_int S + 10) * x_ratio S W"
proof -
  have "W - 8 < 2 ^ 31" using assms(3) by simp
  then have r1: "1 \<le> x_ratio S W"
    unfolding x_ratio_def cropped_screen_width_def start_x_def
    using assms(1,2) by (intro ratio_ge_one) simp_all
  have "10 * 1 \<le> (real_of_int S + 10) * x_ratio S W"
    using r1 assms(1) by (intro mult_mono) simp_all
  then show ?thesis by (simp add: start_x_def)
qed


lemma x_axis_normalised:
  assumes "1 \<le> S" and "S \<le> 2 ^ 16" and "S \<le> W - 8" and "W < 2 ^ 31"
    and "0 \<le> j" and "j < S"
  shows "\<bar>(\<Sum>x \<leftarrow> [first_x S W j..last_x S W j].
             ddiv (x_ratio_in_resulting_pixel S W j x) (x_ratio S W)) - 1\<bar> \<le> 1 / 10 ^ 10"
proof -
  define r where "r = x_ratio S W"
  define p where "p = dmul (of_int j) r"
  define p' where "p' = dmul (of_int (j + 1)) r"
  have c31: "W - 8 < 2 ^ 31" using assms(4) by simp
  have r: "r = ddiv (of_int (W - 8)) (of_int S)"
    by (simp add: r_def x_ratio_def cropped_screen_width_def start_x_def)
  have step: "\<lfloor>p\<rfloor> < \<lfloor>p'\<rfloor>"
    unfolding p_def p'_def r using assms(1,2,3) c31 assms(5,6) by (rule ratio_floor_step)
  have fx: "first_x S W j = start_x + \<lfloor>p\<rfloor>" and lx: "last_x S W j = start_x + \<lfloor>p'\<rfloor>"
    by (simp_all add: first_x_def last_x_def p_def p'_def r_def)
  have comm: "dmul r (of_int (j + 1)) = p'" by (simp add: p'_def dmul_def mult.commute)
  have small: "\<bar>real_of_int start_x\<bar> + 1 < 2 ^ 53" by (simp add: start_x_def)
  have offset: "\<bar>real_of_int start_x\<bar> + 2 \<le> (real_of_int S + 10) * r"
    unfolding r_def using assms(1,3,4) by (rule x_offset_bound)
  have first: "x_ratio_in_resulting_pixel S W j (start_x + \<lfloor>p\<rfloor>)
                 = dsub (dsub (of_int (start_x + \<lfloor>p\<rfloor> + 1)) p) (of_int start_x)"
    by (simp add: x_ratio_in_resulting_pixel_def fx p_def r_def add.assoc)
  have last: "x_ratio_in_resulting_pixel S W j (start_x + \<lfloor>p'\<rfloor>)
                = dadd (dsub p' (of_int (start_x + \<lfloor>p'\<rfloor>))) (of_int start_x)"
    using step comm by (simp add: x_ratio_in_resulting_pixel_def fx lx r_def)
  have inner: "x_ratio_in_resulting_pixel S W j x = 1"
    if "start_x + \<lfloor>p\<rfloor> < x" "x < start_x + \<lfloor>p'\<rfloor>" for x
    using that by (simp add: x_ratio_in_resulting_pixel_def fx lx)
  have nonneg: "0 \<le> x_ratio_in_resulting_pixel S W j x" for x
    using x_weight_unit [of S W j x] by simp
  have "\<bar>(\<Sum>x \<leftarrow> [start_x + \<lfloor>p\<rfloor>..start_x + \<lfloor>p'\<rfloor>].
             ddiv (x_ratio_in_resulting_pixel S W j x) r) - 1\<bar> \<le> 1 / 10 ^ 10"
    using assms(1,2,3) c31 assms(5,6) r p_def p'_def small offset first last inner nonneg
    by (rule axis_normalised)
  then show ?thesis by (simp only: fx lx r_def)
qed

lemma y_axis_normalised:
  assumes "1 \<le> S" and "S \<le> 2 ^ 16" and "S \<le> cropped_screen_height H"
    and "0 \<le> H" and "H < 2 ^ 31" and "0 \<le> i" and "i < S"
  shows "\<bar>(\<Sum>y \<leftarrow> [first_y S H i..last_y S H i].
             ddiv (y_ratio_in_resulting_pixel S H i y) (y_ratio S H)) - 1\<bar> \<le> 1 / 10 ^ 10"
proof -
  define r where "r = y_ratio S H"
  define p where "p = dmul (of_int i) r"
  define p' where "p' = dmul (of_int (i + 1)) r"
  have c31: "cropped_screen_height H < 2 ^ 31"
    using cropped_screen_height_le [OF assms(4)] assms(5) by simp
  have r: "r = ddiv (of_int (cropped_screen_height H)) (of_int S)"
    by (simp add: r_def y_ratio_def)
  have step: "\<lfloor>p\<rfloor> < \<lfloor>p'\<rfloor>"
    unfolding p_def p'_def r using assms(1,2,3) c31 assms(6,7) by (rule ratio_floor_step)
  have fy: "first_y S H i = start_y H + \<lfloor>p\<rfloor>" and ly: "last_y S H i = start_y H + \<lfloor>p'\<rfloor>"
    by (simp_all add: first_y_def last_y_def p_def p'_def r_def)
  have comm: "dmul r (of_int (i + 1)) = p'" by (simp add: p'_def dmul_def mult.commute)
  have small: "\<bar>real_of_int (start_y H)\<bar> + 1 < 2 ^ 53"
    using assms(4,5) by (rule start_y_small)
  have offset: "\<bar>real_of_int (start_y H)\<bar> + 2 \<le> (real_of_int S + 10) * r"
    unfolding r_def using assms(1,3,4,5) by (rule y_offset_bound)
  have first: "y_ratio_in_resulting_pixel S H i (start_y H + \<lfloor>p\<rfloor>)
                 = dsub (dsub (of_int (start_y H + \<lfloor>p\<rfloor> + 1)) p) (of_int (start_y H))"
    by (simp add: y_ratio_in_resulting_pixel_def fy p_def r_def add.assoc)
  have last: "y_ratio_in_resulting_pixel S H i (start_y H + \<lfloor>p'\<rfloor>)
                = dadd (dsub p' (of_int (start_y H + \<lfloor>p'\<rfloor>))) (of_int (start_y H))"
    using step comm by (simp add: y_ratio_in_resulting_pixel_def fy ly r_def)
  have inner: "y_ratio_in_resulting_pixel S H i y = 1"
    if "start_y H + \<lfloor>p\<rfloor> < y" "y < start_y H + \<lfloor>p'\<rfloor>" for y
    using that by (simp add: y_ratio_in_resulting_pixel_def fy ly)
  have nonneg: "0 \<le> y_ratio_in_resulting_pixel S H i y" for y
    using y_weight_unit [OF small, of S i y] by simp
  have "\<bar>(\<Sum>y \<leftarrow> [start_y H + \<lfloor>p\<rfloor>..start_y H + \<lfloor>p'\<rfloor>].
             ddiv (y_ratio_in_resulting_pixel S H i y) r) - 1\<bar> \<le> 1 / 10 ^ 10"
    using assms(1,2,3) c31 assms(6,7) r p_def p'_def small offset first last inner nonneg
    by (rule axis_normalised)
  then show ?thesis by (simp only: fy ly r_def)
qed

lemma rounded_products_sum:
  fixes A :: "'a \<Rightarrow> real" and B :: "'b \<Rightarrow> real"
  assumes A: "\<And>x. 0 \<le> A x" and B: "\<And>y. 0 \<le> B y"
  shows "\<bar>(\<Sum>x \<leftarrow> xs. \<Sum>y \<leftarrow> ys. dmul (A x) (B y))
           - (\<Sum>x \<leftarrow> xs. A x) * (\<Sum>y \<leftarrow> ys. B y)\<bar>
           \<le> (1 / 2 ^ 53) * ((\<Sum>x \<leftarrow> xs. A x) * (\<Sum>y \<leftarrow> ys. B y))"
proof -
  define YB where "YB = (\<Sum>y \<leftarrow> ys. B y)"
  have row: "\<bar>(\<Sum>y \<leftarrow> ys. dmul (A x) (B y)) - A x * YB\<bar> \<le> (1 / 2 ^ 53) * (A x * YB)" for x
  proof -
    have "\<bar>(\<Sum>y \<leftarrow> ys. to_double (A x * B y)) - (\<Sum>y \<leftarrow> ys. A x * B y)\<bar>
            \<le> (1 / 2 ^ 53) * (\<Sum>y \<leftarrow> ys. A x * B y)"
    proof (rule sum_list_relative_error)
      fix y
      have "0 \<le> A x * B y" using A B by simp
      then show "\<bar>to_double (A x * B y) - A x * B y\<bar> \<le> 1 / 2 ^ 53 * (A x * B y)"
        by (rule to_double_relative)
    qed
    moreover have "(\<Sum>y \<leftarrow> ys. A x * B y) = A x * YB"
      unfolding YB_def by (rule sum_list_const_mult)
    ultimately show ?thesis by (simp only: dmul_def)
  qed
  have "\<bar>(\<Sum>x \<leftarrow> xs. \<Sum>y \<leftarrow> ys. dmul (A x) (B y)) - (\<Sum>x \<leftarrow> xs. A x * YB)\<bar>
          \<le> (1 / 2 ^ 53) * (\<Sum>x \<leftarrow> xs. A x * YB)"
    by (rule sum_list_relative_error) (rule row)
  moreover have "(\<Sum>x \<leftarrow> xs. A x * YB) = (\<Sum>x \<leftarrow> xs. A x) * YB"
    by (rule sum_list_mult_const)
  ultimately show ?thesis by (simp only: YB_def)
qed

text \<open>
  Claim C5, as the code has it. For a raw screen with \<open>H > W\<close> whose cropped width \<open>W - 8\<close>
  and cropped height are both at least \<open>S\<close> (the resampling shrinks the screen; the sides
  are C \<^verbatim>\<open>int\<close> values and \<open>S \<le> 65536\<close>), the weights
  \<^verbatim>\<open>(x_ratio_in_resulting_pixel / x_ratio) * (y_ratio_in_resulting_pixel / y_ratio)\<close>, as the
  code computes them in \<^verbatim>\<open>double\<close>, summed over the pixels the loops visit for a cell, give 1
  within \<open>10\<^sup>-\<^sup>9\<close>, for every cell.
\<close>

theorem weight_total_normalised:
  assumes "1 \<le> S" and "S \<le> 2 ^ 16"
    and "S \<le> W - 8" and "W < H" and "S \<le> cropped_screen_height H" and "H < 2 ^ 31"
    and "0 \<le> i" and "i < S" and "0 \<le> j" and "j < S"
  shows "\<bar>weight_total S W H i j - 1\<bar> \<le> 1 / 10 ^ 9"
proof -
  define A where "A x = ddiv (x_ratio_in_resulting_pixel S W j x) (x_ratio S W)" for x
  define B where "B y = ddiv (y_ratio_in_resulting_pixel S H i y) (y_ratio S H)" for y
  define XA where "XA = (\<Sum>x \<leftarrow> [first_x S W j..last_x S W j]. A x)"
  define YB where "YB = (\<Sum>y \<leftarrow> [first_y S H i..last_y S H i]. B y)"
  have W31: "W < 2 ^ 31" using assms(4,6) by simp
  have H0: "0 \<le> H" using assms(1,3,4) by simp
  have small: "\<bar>real_of_int (start_y H)\<bar> + 1 < 2 ^ 53" using H0 assms(6) by (rule start_y_small)
  have xr1: "1 \<le> x_ratio S W"
    unfolding x_ratio_def cropped_screen_width_def start_x_def
    using assms(1,3) W31 by (intro ratio_ge_one) simp_all
  have c31: "cropped_screen_height H < 2 ^ 31"
    using cropped_screen_height_le [OF H0] assms(6) by simp
  have yr1: "1 \<le> y_ratio S H"
    unfolding y_ratio_def using assms(1,5) c31 by (rule ratio_ge_one)
  have A0: "0 \<le> A x" for x
    unfolding A_def ddiv_def using x_weight_unit [of S W j x] xr1
    by (intro to_double_nonneg) simp
  have B0: "0 \<le> B y" for y
    unfolding B_def ddiv_def using y_weight_unit [OF small, of S i y] yr1
    by (intro to_double_nonneg) simp
  have X: "\<bar>XA - 1\<bar> \<le> 1 / 10 ^ 10"
    unfolding XA_def A_def using assms(1,2,3) W31 assms(9,10) by (rule x_axis_normalised)
  have Y: "\<bar>YB - 1\<bar> \<le> 1 / 10 ^ 10"
    unfolding YB_def B_def using assms(1,2,5) H0 assms(6,7,8) by (rule y_axis_normalised)
  have total: "weight_total S W H i j
                 = (\<Sum>x \<leftarrow> [first_x S W j..last_x S W j].
                      \<Sum>y \<leftarrow> [first_y S H i..last_y S H i]. dmul (A x) (B y))"
    by (simp add: weight_total_def pixel_weight_def A_def B_def)
  have T: "\<bar>weight_total S W H i j - XA * YB\<bar> \<le> (1 / 2 ^ 53) * (XA * YB)"
    unfolding total XA_def YB_def using A0 B0 by (rule rounded_products_sum)
  have XAb: "1 - 1 / 10 ^ 10 \<le> XA" "XA \<le> 1 + 1 / 10 ^ 10" using X by linarith+
  have YBb: "1 - 1 / 10 ^ 10 \<le> YB" "YB \<le> 1 + 1 / 10 ^ 10" using Y by linarith+
  have up: "XA * YB \<le> (1 + 1 / 10 ^ 10) * (1 + 1 / 10 ^ 10)"
    using XAb YBb by (intro mult_mono) simp_all
  have lo: "(1 - 1 / 10 ^ 10) * (1 - 1 / 10 ^ 10) \<le> XA * YB"
    using XAb YBb by (intro mult_mono) simp_all
  have P0: "0 \<le> XA * YB" using lo by simp
  have "(1 / 2 ^ 53) * (XA * YB) \<le> (1 / 2 ^ 53) * ((1 + 1 / 10 ^ 10) * (1 + 1 / 10 ^ 10))"
    using up by (intro mult_left_mono) simp_all
  then have "\<bar>weight_total S W H i j - XA * YB\<bar>
               \<le> (1 / 2 ^ 53) * ((1 + 1 / 10 ^ 10) * (1 + 1 / 10 ^ 10))"
    using T by linarith
  moreover have "(1 + 1 / 10 ^ 10) * (1 + 1 / 10 ^ 10)
                   + (1 / 2 ^ 53) * ((1 + 1 / 10 ^ 10) * (1 + 1 / 10 ^ 10)) \<le> (1::real) + 1 / 10 ^ 9"
    by simp
  moreover have "(1::real) - 1 / 10 ^ 9 \<le> (1 - 1 / 10 ^ 10) * (1 - 1 / 10 ^ 10)
                   - (1 / 2 ^ 53) * ((1 + 1 / 10 ^ 10) * (1 + 1 / 10 ^ 10))"
    by simp
  ultimately show ?thesis using up lo by linarith
qed


theorem weight_total_normalised_witness:
  "(1::int) \<le> 84 \<and> (84::int) \<le> 2 ^ 16 \<and> (84::int) \<le> 160 - 8 \<and> (160::int) < 210 \<and>
   84 \<le> cropped_screen_height 210 \<and> (210::int) < 2 ^ 31 \<and> (0::int) \<le> 0 \<and> (0::int) < 84 \<and>
   weight_total 84 160 210 0 0 = 1 - 15 / 144115188075855872 \<and>
   \<bar>weight_total 84 160 210 0 0 - 1\<bar> \<le> 1 / 10 ^ 9"
proof -
  have h: "(1::int) \<le> 84" "(84::int) \<le> 2 ^ 16" "(84::int) \<le> 160 - 8" "(160::int) < 210"
    "84 \<le> cropped_screen_height 210" "(210::int) < 2 ^ 31" "(0::int) \<le> 0" "(0::int) < 84"
    by (simp_all add: atari_ratios)
  have v: "weight_total 84 160 210 0 0 = 1 - 15 / 144115188075855872"
    by (simp add: weight_total_def pixel_weight_def atari_cell_0_0 atari_x_weights
        atari_y_weights atari_ratios upto_rec1 float_eval)
  show ?thesis
    using h v weight_total_normalised [OF h(1) h(2) h(3) h(4) h(5) h(6) h(7) h(8) h(7) h(8)]
    by simp
qed

text \<open>
  The claim fails when a cropped side is shorter than \<open>S\<close>: a cell then covers one source
  pixel, which takes the weight of a first pixel, and the total is not 1. On a 50 by 60
  screen cell \<open>(0, 0)\<close> has the total weight 3.05.
\<close>

lemma upsampled_screen_ratios:
  "x_ratio 84 50 = 1 / 2"
  "cropped_screen_height 60 = 55"
  "y_ratio 84 60 = 5897570940604221 / 9007199254740992"
proof -
  show "x_ratio 84 50 = 1 / 2"
    by (simp add: x_ratio_def cropped_screen_width_def start_x_def float_eval)
  show ch: "cropped_screen_height 60 = 55"
    by (simp add: cropped_screen_height_def float_eval)
  show "y_ratio 84 60 = 5897570940604221 / 9007199254740992"
    by (simp add: y_ratio_def ch float_eval)
qed

lemma upsampled_screen_start_y: "start_y 60 = 2"
  by (simp add: start_y_def upsampled_screen_ratios float_eval)

lemma upsampled_screen_cell_0_0:
  "first_x 84 50 0 = 8" "last_x 84 50 0 = 8" "first_y 84 60 0 = 2" "last_y 84 60 0 = 2"
  by (simp_all add: first_x_def last_x_def first_y_def last_y_def start_x_def
      upsampled_screen_start_y upsampled_screen_ratios float_eval)

lemma upsampled_screen_weights:
  "x_ratio_in_resulting_pixel 84 50 0 8 = 1" "y_ratio_in_resulting_pixel 84 60 0 2 = 1"
  by (simp_all add: x_ratio_in_resulting_pixel_def y_ratio_in_resulting_pixel_def
      upsampled_screen_cell_0_0 start_x_def upsampled_screen_start_y upsampled_screen_ratios
      float_eval)

theorem weight_total_of_upsampled_screen:
  "(50::int) < 60 \<and>
   [first_x 84 50 0..last_x 84 50 0] = [8] \<and> [first_y 84 60 0..last_y 84 60 0] = [2] \<and>
   weight_total 84 50 60 0 0 = 429889055339911 / 140737488355328 \<and>
   \<not> \<bar>weight_total 84 50 60 0 0 - 1\<bar> \<le> 1 / 10 ^ 9"
proof -
  have v: "weight_total 84 50 60 0 0 = 429889055339911 / 140737488355328"
    by (simp add: weight_total_def pixel_weight_def upsampled_screen_cell_0_0
        upsampled_screen_weights upsampled_screen_ratios upto_rec1 float_eval)
  have "\<not> \<bar>weight_total 84 50 60 0 0 - 1\<bar> \<le> 1 / 10 ^ 9"
    unfolding v by simp
  with v show ?thesis by (simp add: upsampled_screen_cell_0_0 upto_rec1)
qed

end
